theory Spec2Isabelle
  imports Main "HOL-Library.Char_ord" "HOL-Library.List_Lexorder"
begin
section \<open>JavaScript strings\<close>

text \<open>
  Strings are lists of code units. The model covers the code units 0 to 255, which
  Isabelle's \<^typ>\<open>char\<close> holds; the source's own patterns name no code unit above
  \<open>\x1f\<close> apart from what \<open>\s\<close> and \<open>\w\<close> stand for.
\<close>

definition startsWith :: "string \<Rightarrow> string \<Rightarrow> bool" where
  "startsWith s p = (take (length p) s = p)"

definition endsWith :: "string \<Rightarrow> string \<Rightarrow> bool" where
  "endsWith s p = (length p \<le> length s \<and> drop (length s - length p) s = p)"

text \<open>\<open>s.slice(n)\<close> for a non-negative \<open>n\<close>: the string from index \<open>n\<close> on, empty past the end.\<close>

definition slice :: "string \<Rightarrow> nat \<Rightarrow> string" where
  "slice s n = drop n s"

text \<open>
  The white space of \<open>String.prototype.trim\<close> and of the pattern \<open>\s\<close> (the same set
  in ECMAScript): tab, line feed, vertical tab, form feed, carriage return, space and the
  no-break space.
\<close>

definition isWhiteSpace :: "char \<Rightarrow> bool" where
  "isWhiteSpace c = (of_char c \<in> {9, 10, 11, 12, 13, 32, 160 :: nat})"

definition trim :: "string \<Rightarrow> string" where
  "trim s = rev (dropWhile isWhiteSpace (rev (dropWhile isWhiteSpace s)))"

text \<open>\<open>\w\<close> is \<open>[A-Za-z0-9_]\<close>; \<open>[A-Za-z]\<close>; \<open>\x00-\x1f\<close>.\<close>

definition isLetter :: "char \<Rightarrow> bool" where
  "isLetter c = (let n = of_char c :: nat in (65 \<le> n \<and> n \<le> 90) \<or> (97 \<le> n \<and> n \<le> 122))"

definition isWord :: "char \<Rightarrow> bool" where
  "isWord c = (let n = of_char c :: nat in isLetter c \<or> (48 \<le> n \<and> n \<le> 57) \<or> n = 95)"

definition isControl :: "char \<Rightarrow> bool" where
  "isControl c = (of_char c \<le> (31 :: nat))"

subsection \<open>The patterns the source uses\<close>

text \<open>
  Both patterns of the source are anchored (\<open>^ ... $\<close>) sequences of character classes,
  each taken once, zero or more times (\<open>*\<close>) or one or more times (\<open>+\<close>).
  \<open>rx_test\<close> is \<open>RegExp.prototype.test\<close> on such a pattern: it tries every way of
  splitting the string, as backtracking does.
\<close>

datatype quantifier = One | Star | Plus

type_synonym regex = "((char \<Rightarrow> bool) \<times> quantifier) list"

fun rx_test :: "regex \<Rightarrow> string \<Rightarrow> bool" where
  "rx_test [] s = (s = [])"
| "rx_test ((P, One) # r) s = (case s of [] \<Rightarrow> False | c # cs \<Rightarrow> P c \<and> rx_test r cs)"
| "rx_test ((P, Star) # r) s =
     (rx_test r s \<or> (case s of [] \<Rightarrow> False | c # cs \<Rightarrow> P c \<and> rx_test ((P, Star) # r) cs))"
| "rx_test ((P, Plus) # r) s =
     (case s of [] \<Rightarrow> False | c # cs \<Rightarrow> P c \<and> rx_test ((P, Star) # r) cs)"

text \<open>\<open>/^[\w,\s-]+\.[A-Za-z]{3}$/\<close>\<close>

definition fileNameClass :: "char \<Rightarrow> bool" where
  "fileNameClass c = (isWord c \<or> c = CHR '','' \<or> isWhiteSpace c \<or> c = CHR ''-'')"

definition fileNameRegex :: regex where
  "fileNameRegex =
     [(fileNameClass, Plus), (\<lambda>c. c = CHR ''.'', One),
      (isLetter, One), (isLetter, One), (isLetter, One)]"

text \<open>
  \<open>/^[^\s^\x00-\x1f\\?*:"";<>|\/.][^\x00-\x1f\\?*:"";<>|\/]*[^\s^\x00-\x1f\\?*:"";<>|\/.]+$/g\<close>.
  The literal is evaluated at each call, so the \<open>g\<close> flag's \<open>lastIndex\<close> is 0 at every test.
  \<open>forbidden\<close> is the run \<open>\\?*:"";<>|\/\<close> that the three classes share.
\<close>

definition forbidden :: "char list" where
  "forbidden =
     [CHR 0x5C, CHR ''?'', CHR ''*'', CHR '':'', CHR 0x22, CHR 0x22, CHR '';'',
      CHR ''<'', CHR ''>'', CHR ''|'', CHR ''/'']"

definition folderEdgeClass :: "char \<Rightarrow> bool" where
  "folderEdgeClass c =
     (\<not> (isWhiteSpace c \<or> c = CHR ''^'' \<or> isControl c \<or> c \<in> set forbidden \<or> c = CHR ''.''))"

definition folderInnerClass :: "char \<Rightarrow> bool" where
  "folderInnerClass c = (\<not> (isControl c \<or> c \<in> set forbidden))"

definition folderNameRegex :: regex where
  "folderNameRegex = [(folderEdgeClass, One), (folderInnerClass, Star), (folderEdgeClass, Plus)]"

section \<open>Name validation\<close>

text \<open>
  \<open>fileName && regex.test(fileName.trim())\<close>: the empty string is falsy, so the
  conjunction is falsy for it; the callers only branch on the result.
\<close>

definition isValidFileName :: "string \<Rightarrow> bool" where
  "isValidFileName fileName = (fileName \<noteq> [] \<and> rx_test fileNameRegex (trim fileName))"

definition isValidFolderName :: "string \<Rightarrow> bool" where
  "isValidFolderName folderName = (folderName \<noteq> [] \<and> rx_test folderNameRegex (trim folderName))"

section \<open>Replacing and encoding\<close>

text \<open>
  \<open>s.indexOf(pat)\<close>, and \<open>s.replace(pat, repl)\<close> for a string pattern: the first
  occurrence is replaced, and the replacement text is expanded first, \<open>$$\<close> to a dollar
  sign, \<open>$&\<close> to the matched text, \<open>$`\<close> and \<open>$'\<close> to the text before and after
  the match. A string pattern has no capture groups, so \<open>$1\<close> and \<open>$<\<close> stay as they are.
\<close>

fun indexOf :: "string \<Rightarrow> string \<Rightarrow> nat option" where
  "indexOf [] pat = (if pat = [] then Some 0 else None)"
| "indexOf (c # cs) pat =
     (if startsWith (c # cs) pat then Some 0 else map_option Suc (indexOf cs pat))"

fun getSubstitution :: "string \<Rightarrow> string \<Rightarrow> string \<Rightarrow> string \<Rightarrow> string" where
  "getSubstitution m b a [] = []"
| "getSubstitution m b a [c] = [c]"
| "getSubstitution m b a (c # d # r) =
     (if c = CHR ''$'' then
        (if d = CHR ''$'' then CHR ''$'' # getSubstitution m b a r
         else if d = CHR ''&'' then m @ getSubstitution m b a r
         else if d = CHR 0x60 then b @ getSubstitution m b a r
         else if d = CHR 0x27 then a @ getSubstitution m b a r
         else c # getSubstitution m b a (d # r))
      else c # getSubstitution m b a (d # r))"

definition replace :: "string \<Rightarrow> string \<Rightarrow> string \<Rightarrow> string" where
  "replace s pat repl =
     (case indexOf s pat of
        None \<Rightarrow> s
      | Some i \<Rightarrow>
          (let front = take i s; back = drop (i + length pat) s
           in front @ getSubstitution pat front back repl @ back))"

text \<open>
  \<open>encodeURIComponent\<close>: the unreserved characters stay, every other code unit is
  written as the percent-escaped bytes of its UTF-8 encoding (two bytes from 128 on).
\<close>

definition hexDigit :: "nat \<Rightarrow> char" where
  "hexDigit n = (''0123456789ABCDEF'' ! (n mod 16))"

definition percent :: "nat \<Rightarrow> string" where
  "percent n = [CHR ''%'', hexDigit (n div 16), hexDigit n]"

definition encodeURIComponent :: "string \<Rightarrow> string" where
  "encodeURIComponent s =
     concat (map (\<lambda>c. let n = of_char c :: nat in
                     if isWord c \<or> c \<in> set ''-.!~*'' \<or> c = CHR 0x27 \<or> c \<in> set ''()'' then [c]
                     else if n < 128 then percent n
                     else percent (192 + n div 64) @ percent (128 + n mod 64)) s)"

section \<open>The object store\<close>

text \<open>
  The client \<open>s3Client\<close> talks to one bucket of an object store, which is not part of the
  repository. It is modelled as the service documents it: a bucket holds one object per
  key; a listing returns, in the binary order of the keys, the objects whose key starts with
  the prefix, at most one page of them; with a delimiter, the keys that have the delimiter
  after the prefix are rolled up into one common prefix each, which counts as one entry of
  the page. A list, a put and a batch delete always succeed; a copy can fail, as
  \<open>send_copy\<close> below spells out.

  \<open>pageLimit\<close> is the most entries a listing returns (1000 for the service).
  \<open>omitEmpty\<close> says whether a response leaves out a list field that would be empty, as
  the source's own \<open>Contents?.\<close> and \<open>CommonPrefixes?.\<close> allow for.
\<close>

record s3object =
  Key :: string
  LastModified :: nat
  Size :: nat

record list_input =
  Prefix :: string
  Delimiter :: "char option"
  ContinuationToken :: "string option"
  MaxKeys :: "nat option"

text \<open>\<open>CommonPrefixes\<close> holds the \<open>Prefix\<close> of each item.\<close>

record list_output =
  Contents :: "s3object list option"
  CommonPrefixes :: "string list option"
  IsTruncated :: bool
  NextContinuationToken :: "string option"

record s3_config =
  pageLimit :: nat
  omitEmpty :: bool

datatype entry = Object s3object | CommonPrefix string

fun entry_key :: "entry \<Rightarrow> string" where
  "entry_key (Object x) = Key x"
| "entry_key (CommonPrefix c) = c"

fun entry_of :: "string \<Rightarrow> char option \<Rightarrow> s3object \<Rightarrow> entry" where
  "entry_of p None x = Object x"
| "entry_of p (Some d) x =
     (let rest = drop (length p) (Key x)
      in if d \<in> set rest then CommonPrefix (p @ takeWhile (\<lambda>c. c \<noteq> d) rest @ [d])
         else Object x)"

text \<open>The entries of a listing, before it is cut into pages: one for each object, or one
  for each common prefix, in the order of the keys.\<close>

definition list_entries :: "string \<Rightarrow> char option \<Rightarrow> s3object list \<Rightarrow> entry list" where
  "list_entries p d b = remdups (map (entry_of p d) (filter (\<lambda>x. startsWith (Key x) p) b))"

text \<open>The entries that a continuation token leaves: those after the last one returned.\<close>

definition after_token :: "string option \<Rightarrow> entry list \<Rightarrow> entry list" where
  "after_token token es =
     (case token of None \<Rightarrow> es | Some t \<Rightarrow> filter (\<lambda>e. t < entry_key e) es)"

fun contents_of :: "entry list \<Rightarrow> s3object list" where
  "contents_of [] = []"
| "contents_of (Object x # es) = x # contents_of es"
| "contents_of (CommonPrefix c # es) = contents_of es"

fun prefixes_of :: "entry list \<Rightarrow> string list" where
  "prefixes_of [] = []"
| "prefixes_of (Object x # es) = prefixes_of es"
| "prefixes_of (CommonPrefix c # es) = c # prefixes_of es"

definition optional :: "s3_config \<Rightarrow> 'a list \<Rightarrow> 'a list option" where
  "optional cfg xs = (if xs = [] \<and> omitEmpty cfg then None else Some xs)"

definition max_keys :: "s3_config \<Rightarrow> list_input \<Rightarrow> nat" where
  "max_keys cfg req = (case MaxKeys req of None \<Rightarrow> pageLimit cfg | Some m \<Rightarrow> min m (pageLimit cfg))"

definition listObjectsV2 :: "s3_config \<Rightarrow> s3object list \<Rightarrow> list_input \<Rightarrow> list_output" where
  "listObjectsV2 cfg b req =
     (let limit = max_keys cfg req;
          rest = after_token (ContinuationToken req) (list_entries (Prefix req) (Delimiter req) b);
          page = take limit rest;
          more = (0 < limit \<and> limit < length rest)
      in \<lparr>Contents = optional cfg (contents_of page),
          CommonPrefixes = optional cfg (prefixes_of page),
          IsTruncated = more,
          NextContinuationToken = (if more then Some (entry_key (last page)) else None)\<rparr>)"

fun put_object :: "s3object \<Rightarrow> s3object list \<Rightarrow> s3object list" where
  "put_object x [] = [x]"
| "put_object x (y # ys) =
     (if Key x < Key y then x # y # ys
      else if Key x = Key y then x # ys
      else y # put_object x ys)"

definition delete_objects :: "string list \<Rightarrow> s3object list \<Rightarrow> s3object list" where
  "delete_objects keys b = filter (\<lambda>x. Key x \<notin> set keys) b"

text \<open>A bucket lists its objects by ascending key, one object per key.\<close>

definition wf_bucket :: "s3object list \<Rightarrow> bool" where
  "wf_bucket b = sorted_wrt (\<lambda>x y. Key x < Key y) b"

subsection \<open>The client\<close>

text \<open>
  \<open>s3Client.send\<close>, one function per command. The world is the bucket, the store's clock
  (the time stamp of the next write) and the commands sent so far, oldest first.
  \<open>CopySource\<close> is \<open>bucketName/key\<close> with the one bucket the client uses, so the
  command is recorded with the source key alone. The code never looks at the error of a
  command that fails, so the errors of the store and of the client are one value,
  \<open>ServiceError\<close>.
\<close>

datatype command =
    ListObjectsV2Command list_input
  | PutObjectCommand string
  | DeleteObjectsCommand "string list"
  | CopyObjectCommand string string

datatype js_error = Error string | TypeError | ServiceError

type_synonym 'a result = "js_error + 'a"

record world =
  bucket :: "s3object list"
  clock :: nat
  sent :: "command list"

definition send_list :: "s3_config \<Rightarrow> list_input \<Rightarrow> world \<Rightarrow> list_output \<times> world" where
  "send_list cfg req w =
     (listObjectsV2 cfg (bucket w) req, w\<lparr>sent := sent w @ [ListObjectsV2Command req]\<rparr>)"

text \<open>A put without a body writes a zero-byte object.\<close>

definition send_put :: "string \<Rightarrow> world \<Rightarrow> world" where
  "send_put key w =
     w\<lparr>bucket := put_object \<lparr>Key = key, LastModified = clock w, Size = 0\<rparr> (bucket w),
       clock := Suc (clock w),
       sent := sent w @ [PutObjectCommand key]\<rparr>"

definition send_delete :: "string list \<Rightarrow> world \<Rightarrow> world" where
  "send_delete keys w =
     w\<lparr>bucket := delete_objects keys (bucket w),
       clock := Suc (clock w),
       sent := sent w @ [DeleteObjectsCommand keys]\<rparr>"

text \<open>
  The code names the source of a copy as \<open>bucketName/key\<close>, the key as it stands, and
  the client sends that string in a header without encoding it. A header value carries
  the printable ASCII characters only: with a control character (a line feed, say) the
  request is refused before it leaves, and with a code unit above 126 the bytes sent are
  not the ones signed. The store reads the value URL-decoded: \<open>%\<close> and two
  hexadecimal digits are the code unit they write, \<open>+\<close> is a space, and a \<open>%\<close>
  without two hexadecimal digits after it is refused. So \<open>readCopySource key\<close> is the
  key the store looks up when the code names \<open>key\<close>, or \<open>None\<close> when the request
  fails before any object is read; for \<open>a/%41.txt\<close> it is \<open>a/A.txt\<close>. Versions of
  objects are not modelled.
\<close>

definition hexValue :: "char \<Rightarrow> nat option" where
  "hexValue c =
     (let n = (of_char c :: nat)
      in if 48 \<le> n \<and> n \<le> 57 then Some (n - 48)
         else if 65 \<le> n \<and> n \<le> 70 then Some (n - 55)
         else if 97 \<le> n \<and> n \<le> 102 then Some (n - 87)
         else None)"

fun urlDecode :: "string \<Rightarrow> string option" where
  "urlDecode [] = Some []"
| "urlDecode (c # cs) =
     (if c = CHR ''%''
      then (case cs of
              h # l # rest \<Rightarrow>
                (case hexValue h of
                   None \<Rightarrow> None
                 | Some a \<Rightarrow>
                     (case hexValue l of
                        None \<Rightarrow> None
                      | Some b \<Rightarrow> map_option ((#) (char_of (16 * a + b))) (urlDecode rest)))
            | _ \<Rightarrow> None)
      else map_option ((#) (if c = CHR ''+'' then CHR '' '' else c)) (urlDecode cs))"

definition readCopySource :: "string \<Rightarrow> string option" where
  "readCopySource key =
     (if list_all (\<lambda>c. 32 \<le> (of_char c :: nat) \<and> (of_char c :: nat) \<le> 126) key
      then urlDecode key else None)"

text \<open>
  A copy fails when the source cannot be read, when the store has no object with the key
  it reads, and when that key is the destination: the store refuses to copy an object
  onto itself with nothing changed. Otherwise the destination key holds a copy, written
  now. The command is recorded either way.
\<close>

definition send_copy :: "string \<Rightarrow> string \<Rightarrow> world \<Rightarrow> unit result \<times> world" where
  "send_copy source key w =
     (let w1 = w\<lparr>sent := sent w @ [CopyObjectCommand source key]\<rparr>
      in case readCopySource source of
           None \<Rightarrow> (Inl ServiceError, w1)
         | Some k \<Rightarrow>
             (case find (\<lambda>x. Key x = k) (bucket w) of
                None \<Rightarrow> (Inl ServiceError, w1)
              | Some x \<Rightarrow>
                  if k = key then (Inl ServiceError, w1)
                  else (Inr (),
                        w1\<lparr>bucket := put_object \<lparr>Key = key, LastModified = clock w, Size = Size x\<rparr>
                                      (bucket w),
                           clock := Suc (clock w)\<rparr>)))"

section \<open>The hook \<open>useS3System\<close>\<close>

text \<open>
  What the module reads from its environment: the bucket's name and the exclusion
  pattern, a pattern without flags, so that its \<open>test\<close> is a predicate on the string.
\<close>

record env =
  bucketName :: string
  excludeRegex :: "string \<Rightarrow> bool"

definition defaultFolders :: "string list" where
  "defaultFolders =
     [''Health records'', ''Contractual agreements'', ''Bills & Receipts'',
      ''Financial documents'', ''Care payments'', ''Advance care planning'',
      ''Legal documents'']"

subsection \<open>Seeding the default folders\<close>

text \<open>
  The set \<open>existingFolderNames\<close>, as the list of its members: \<open>new Set(undefined)\<close>
  is the empty set.
\<close>

definition existingFolderNames :: "string \<Rightarrow> list_output \<Rightarrow> string list" where
  "existingFolderNames prefix existingFolders =
     (case CommonPrefixes existingFolders of
        None \<Rightarrow> []
      | Some cps \<Rightarrow> map (\<lambda>cp. replace (replace cp prefix []) ''/'' []) cps)"

definition ensureDefaultFoldersExist :: "s3_config \<Rightarrow> string \<Rightarrow> world \<Rightarrow> world" where
  "ensureDefaultFoldersExist cfg prefix w =
     (let r = send_list cfg
                \<lparr>Prefix = prefix, Delimiter = Some CHR ''/'', ContinuationToken = None,
                 MaxKeys = None\<rparr> w;
          existingFolders = fst r
      in fold (\<lambda>folder w'.
                 if folder \<notin> set (existingFolderNames prefix existingFolders)
                 then send_put (prefix @ folder @ ''/'') w' else w')
              defaultFolders (snd r))"

subsection \<open>Listing\<close>

record folder_entry =
  name :: string
  path :: string
  url :: string

text \<open>An object entry has the three fields of a folder entry, and two more.\<close>

record object_entry = folder_entry +
  lastModified :: nat
  size' :: nat

record listing =
  folders :: "folder_entry list"
  objects :: "object_entry list"

text \<open>
  \<open>listContents\<close> only reads, so it takes the client as the function from the list
  request to the response; \<open>listObjectsV2 cfg (bucket w)\<close> is the store's.
\<close>

definition listContents :: "(list_input \<Rightarrow> list_output) \<Rightarrow> env \<Rightarrow> string \<Rightarrow> listing" where
  "listContents send env prefix =
     (let data = send \<lparr>Prefix = prefix, Delimiter = Some CHR ''/'', ContinuationToken = None,
                       MaxKeys = None\<rparr>;
          filteredContents =
            (case Contents data of
               None \<Rightarrow> []
             | Some cs \<Rightarrow> filter (\<lambda>x. \<not> (Size x = 0 \<and> endsWith (Key x) ''/'')) cs)
      in \<lparr>folders =
            (case CommonPrefixes data of
               None \<Rightarrow> []
             | Some cps \<Rightarrow>
                 map (\<lambda>P. \<lparr>name = slice P (length prefix), path = P, url = ''/?prefix='' @ P\<rparr>)
                     (filter (\<lambda>P. \<not> excludeRegex env P) cps)),
          objects =
            map (\<lambda>x. \<lparr>name = slice (Key x) (length prefix), path = Key x,
                       url = ''https://'' @ bucketName env @ ''.s3.amazonaws.com/''
                             @ encodeURIComponent (Key x),
                       lastModified = LastModified x, size' = Size x\<rparr>)
                (filter (\<lambda>x. \<not> excludeRegex env (Key x)) filteredContents)\<rparr>)"

subsection \<open>Creating a folder\<close>

definition createFolder :: "string \<Rightarrow> string \<Rightarrow> world \<Rightarrow> unit result \<times> world" where
  "createFolder folderName currentPrefix w =
     (if \<not> isValidFolderName folderName then (Inl (Error ''Invalid folder name!''), w)
      else let fullPath = currentPrefix @ trim folderName @ ''/''
           in (Inr (), send_put fullPath w))"

subsection \<open>Copying\<close>

text \<open>
  The \<open>for\<close> loop of \<open>copyFolderContents\<close> over one listed segment; a failed copy ends it.
\<close>

fun copySegment :: "string \<Rightarrow> string \<Rightarrow> s3object list \<Rightarrow> world \<Rightarrow> unit result \<times> world" where
  "copySegment sourcePrefix destinationPrefix [] w = (Inr (), w)"
| "copySegment sourcePrefix destinationPrefix (object # rest) w =
     (let newObjectKey = replace (Key object) sourcePrefix destinationPrefix;
          r = send_copy (Key object) newObjectKey w
      in case fst r of
           Inl e \<Rightarrow> (Inl e, snd r)
         | Inr u \<Rightarrow> copySegment sourcePrefix destinationPrefix rest (snd r))"

text \<open>
  The \<open>do ... while (continuationToken)\<close> loop. Each copy adds a key, perhaps under the
  source prefix again, so the loop need not end: it runs on fuel, one unit per segment,
  and \<open>None\<close> is the run that has not returned when the fuel is spent. Iterating over a
  \<open>Contents\<close> that is \<open>undefined\<close> is a \<open>TypeError\<close>; the empty token is falsy.
\<close>

fun copyFolderLoop ::
  "nat \<Rightarrow> s3_config \<Rightarrow> string \<Rightarrow> string \<Rightarrow> string option \<Rightarrow> world \<Rightarrow> (unit result \<times> world) option"
where
  "copyFolderLoop 0 cfg sourcePrefix destinationPrefix continuationToken w = None"
| "copyFolderLoop (Suc fuel) cfg sourcePrefix destinationPrefix continuationToken w =
     (let r = send_list cfg
                \<lparr>Prefix = sourcePrefix, Delimiter = None,
                 ContinuationToken = continuationToken, MaxKeys = None\<rparr> w;
          listedObjects = fst r
      in case Contents listedObjects of
           None \<Rightarrow> Some (Inl TypeError, snd r)
         | Some cs \<Rightarrow>
             (let r2 = copySegment sourcePrefix destinationPrefix cs (snd r)
              in case fst r2 of
                   Inl e \<Rightarrow> Some (Inl e, snd r2)
                 | Inr u \<Rightarrow>
                     (case NextContinuationToken listedObjects of
                        None \<Rightarrow> Some (Inr (), snd r2)
                      | Some t \<Rightarrow>
                          if t = [] then Some (Inr (), snd r2)
                          else copyFolderLoop fuel cfg sourcePrefix destinationPrefix
                                 (Some t) (snd r2))))"

definition copyFolderContents ::
  "nat \<Rightarrow> s3_config \<Rightarrow> string \<Rightarrow> string \<Rightarrow> world \<Rightarrow> (unit result \<times> world) option"
where
  "copyFolderContents fuel cfg sourcePrefix destinationPrefix w =
     copyFolderLoop fuel cfg sourcePrefix destinationPrefix None w"

definition copyFileOrFolders ::
  "nat \<Rightarrow> s3_config \<Rightarrow> string \<Rightarrow> string \<Rightarrow> world \<Rightarrow> (unit result \<times> world) option"
where
  "copyFileOrFolders fuel cfg sourceKey destinationKey w =
     (if endsWith sourceKey ''/'' then copyFolderContents fuel cfg sourceKey destinationKey w
      else Some (send_copy sourceKey destinationKey w))"

subsection \<open>Recursive deletion\<close>

text \<open>Reading \<open>length\<close> of a \<open>Contents\<close> that is \<open>undefined\<close> is a \<open>TypeError\<close>.\<close>

function deleteFolderAndContents :: "s3_config \<Rightarrow> string \<Rightarrow> world \<Rightarrow> unit result \<times> world" where
  "deleteFolderAndContents cfg prefix w =
     (let r = send_list cfg
                \<lparr>Prefix = prefix, Delimiter = None, ContinuationToken = None,
                 MaxKeys = None\<rparr> w;
          listedObjects = fst r
      in case Contents listedObjects of
           None \<Rightarrow> (Inl TypeError, snd r)
         | Some cs \<Rightarrow>
             if length cs = 0 then (Inr (), snd r)
             else let w2 = send_delete (map Key cs) (snd r)
                  in if IsTruncated listedObjects then deleteFolderAndContents cfg prefix w2
                     else (Inr (), w2))"
  by pat_completeness auto

text \<open>Every call that recurses has deleted a listed object first, so the bucket shrinks.\<close>

termination deleteFolderAndContents
proof (relation "measure (\<lambda>(cfg, prefix, w). length (bucket w))")
  show "wf (measure (\<lambda>(cfg, prefix, w). length (bucket w)))" by simp
next
  fix cfg :: s3_config and prefix :: string and w r listedObjects cs w2
  assume r: "r = send_list cfg
                   \<lparr>Prefix = prefix, Delimiter = None, ContinuationToken = None,
                    MaxKeys = None\<rparr> w"
    and l: "listedObjects = fst r"
    and cs: "Contents listedObjects = Some cs"
    and ne: "length cs \<noteq> 0"
    and w2: "w2 = send_delete (map Key cs) (snd r)"
  from ne obtain x where x: "x \<in> set cs" by (cases cs) auto
  have sub: "set (contents_of es) \<subseteq> {y. Object y \<in> set es}" for es
    by (induction es rule: contents_of.induct) auto
  let ?es = "list_entries prefix None (bucket w)"
  from cs r l have "cs = contents_of (take (pageLimit cfg) ?es)"
    by (simp add: send_list_def listObjectsV2_def optional_def max_keys_def after_token_def
        Let_def split: if_splits)
  with x sub have "Object x \<in> set (take (pageLimit cfg) ?es)" by blast
  then have "Object x \<in> set ?es" by (rule in_set_takeD)
  then have "x \<in> set (bucket w)" by (auto simp: list_entries_def)
  moreover from x have "Key x \<in> set (map Key cs)" by simp
  ultimately have "length (delete_objects (map Key cs) (bucket w)) < length (bucket w)"
    unfolding delete_objects_def by (intro length_filter_less[of x]) auto
  with r w2 show "((cfg, prefix, w2), (cfg, prefix, w))
                  \<in> measure (\<lambda>(cfg, prefix, w). length (bucket w))"
    by (simp add: send_list_def send_delete_def)
qed

subsection \<open>Renaming\<close>

text \<open>\<open>checkExistence.Contents?.length > 0\<close> is false when \<open>Contents\<close> is \<open>undefined\<close>.\<close>

definition checkIfFileExists :: "s3_config \<Rightarrow> string \<Rightarrow> world \<Rightarrow> unit result \<times> world" where
  "checkIfFileExists cfg key w =
     (let r = send_list cfg
                \<lparr>Prefix = key, Delimiter = None, ContinuationToken = None, MaxKeys = Some 1\<rparr> w;
          checkExistence = fst r
      in case Contents checkExistence of
           None \<Rightarrow> (Inr (), snd r)
         | Some cs \<Rightarrow>
             if length cs > 0
             then (Inl (Error ''The destination file or folder already exists.''), snd r)
             else (Inr (), snd r))"

text \<open>The \<open>for\<close> loop of the folder branch of \<open>renameFile\<close>, over the one listed segment.\<close>

fun renameSegment ::
  "nat \<Rightarrow> s3_config \<Rightarrow> string \<Rightarrow> string \<Rightarrow> s3object list \<Rightarrow> world \<Rightarrow> (unit result \<times> world) option"
where
  "renameSegment fuel cfg oldKey newKey [] w = Some (Inr (), w)"
| "renameSegment fuel cfg oldKey newKey (obj # rest) w =
     (let newObjectKey = replace (Key obj) oldKey newKey
      in case copyFileOrFolders fuel cfg (Key obj) newObjectKey w of
           None \<Rightarrow> None
         | Some r \<Rightarrow>
             (case fst r of
                Inl e \<Rightarrow> Some (Inl e, snd r)
              | Inr u \<Rightarrow> renameSegment fuel cfg oldKey newKey rest (snd r)))"

text \<open>
  \<open>oldKey\<close> and \<open>newKey\<close> are strings; \<open>!oldKey\<close> holds of the empty one. The fuel
  is that of each folder copy the rename makes.
\<close>

definition renameFile ::
  "nat \<Rightarrow> s3_config \<Rightarrow> string \<Rightarrow> string \<Rightarrow> bool \<Rightarrow> string \<Rightarrow> world \<Rightarrow> (unit result \<times> world) option"
where
  "renameFile fuel cfg oldKey newKey isFolder currentPrefix w =
     (if oldKey = [] \<or> newKey = [] then Some (Inl (Error ''New filename must be provided''), w)
      else if oldKey = newKey then Some (Inr (), w)
      else if isFolder then
        (if \<not> isValidFolderName newKey then Some (Inl (Error ''Invalid folder name''), w)
         else
           let oldKey' = currentPrefix @ oldKey @ ''/'';
               newKey' = currentPrefix @ newKey @ ''/'';
               c = checkIfFileExists cfg newKey' w
           in case fst c of
                Inl e \<Rightarrow> Some (Inl e, snd c)
              | Inr u \<Rightarrow>
                  (let r = send_list cfg
                             \<lparr>Prefix = oldKey', Delimiter = None, ContinuationToken = None,
                              MaxKeys = None\<rparr> (snd c);
                       listedObjects = fst r
                   in case Contents listedObjects of
                        None \<Rightarrow> Some (Inl TypeError, snd r)
                      | Some cs \<Rightarrow>
                          (case renameSegment fuel cfg oldKey' newKey' cs (snd r) of
                             None \<Rightarrow> None
                           | Some r2 \<Rightarrow>
                               (case fst r2 of
                                  Inl e \<Rightarrow> Some (Inl e, snd r2)
                                | Inr u \<Rightarrow> Some (deleteFolderAndContents cfg oldKey' (snd r2))))))
      else
        (if \<not> isValidFileName newKey then Some (Inl (Error ''Invalid file name''), w)
         else
           let oldKey' = currentPrefix @ oldKey;
               newKey' = currentPrefix @ newKey;
               c = checkIfFileExists cfg newKey' w
           in case fst c of
                Inl e \<Rightarrow> Some (Inl e, snd c)
              | Inr u \<Rightarrow>
                  (case copyFileOrFolders fuel cfg oldKey' newKey' (snd c) of
                     None \<Rightarrow> None
                   | Some r2 \<Rightarrow>
                       (case fst r2 of
                          Inl e \<Rightarrow> Some (Inl e, snd r2)
                        | Inr u \<Rightarrow> Some (deleteFolderAndContents cfg oldKey' (snd r2))))))"

section \<open>The grammars as the specification words them\<close>

text \<open>
  These follow the specification's sentences, not the source; the theorems compare them
  with the validators above. A report-shaped file name is one or more word, white-space
  or hyphen characters, a dot, and exactly three letters; \<open>spec_stem\<close> is the part before
  the dot. The documented folder grammar is: non-empty, no control character, none of
  \<open>\ ? * : " < > | /\<close>, no white space at either end, no period at the end.
\<close>

definition spec_reportShaped :: "string \<Rightarrow> bool" where
  "spec_reportShaped s =
     (case rev s of
        c # b # a # d # mets \<Rightarrow>
          mets \<noteq> [] \<and> list_all (\<lambda>x. isWord x \<or> isWhiteSpace x \<or> x = CHR ''-'') mets
          \<and> d = CHR ''.'' \<and> isLetter a \<and> isLetter b \<and> isLetter c
      | _ \<Rightarrow> False)"

definition spec_stem :: "string \<Rightarrow> string" where
  "spec_stem s = take (length s - 4) s"

definition spec_forbidden :: "char list" where
  "spec_forbidden =
     [CHR 0x5C, CHR ''?'', CHR ''*'', CHR '':'', CHR 0x22, CHR ''<'', CHR ''>'', CHR ''|'',
      CHR ''/'']"

definition spec_folderGrammar :: "string \<Rightarrow> bool" where
  "spec_folderGrammar s =
     (s \<noteq> [] \<and> list_all (\<lambda>c. \<not> isControl c \<and> c \<notin> set spec_forbidden) s
      \<and> \<not> isWhiteSpace (hd s) \<and> \<not> isWhiteSpace (last s) \<and> last s \<noteq> CHR ''.'')"

text \<open>A world to run examples in.\<close>

definition emptyWorld :: world where
  "emptyWorld = \<lparr>bucket = [], clock = 0, sent = []\<rparr>"

section \<open>Examples, and what the statements count\<close>

text \<open>
  The service's configuration: pages of 1000 entries, and a response without the list
  fields that would be empty, which is how the JavaScript client hands back an empty
  listing. The default environment excludes nothing, as the source's
  default pattern \<open>/(?!)/\<close> does. \<open>spec_displayName\<close> is the folder name as the
  specification words it: the prefix without its parent, the trailing slash stripped.
\<close>

definition s3Service :: s3_config where
  "s3Service = \<lparr>pageLimit = 1000, omitEmpty = True\<rparr>"

definition defaultEnv :: env where
  "defaultEnv = \<lparr>bucketName = ''bucket'', excludeRegex = (\<lambda>s. False)\<rparr>"

definition spec_displayName :: "string \<Rightarrow> string \<Rightarrow> string" where
  "spec_displayName prefix cp =
     (let r = drop (length prefix) cp in if endsWith r ''/'' then butlast r else r)"

definition exampleFolder :: "s3object list" where
  "exampleFolder =
     [\<lparr>Key = ''p/'', LastModified = 1, Size = 0\<rparr>,
      \<lparr>Key = ''p/a b.txt'', LastModified = 2, Size = 4\<rparr>,
      \<lparr>Key = ''p/docs/x.txt'', LastModified = 3, Size = 7\<rparr>]"

text \<open>The batch deletes among the commands sent.\<close>

fun isDelete :: "command \<Rightarrow> bool" where
  "isDelete (DeleteObjectsCommand keys) = True"
| "isDelete c = False"

definition deleteCalls :: "world \<Rightarrow> nat" where
  "deleteCalls w = length (filter isDelete (sent w))"

abbreviation (input) plain :: "string \<Rightarrow> list_input" where
  "plain p \<equiv> \<lparr>Prefix = p, Delimiter = None, ContinuationToken = None, MaxKeys = None\<rparr>"

text \<open>
  A folder of 1500 objects, its placeholder first: the keys are \<open>folder/\<close> followed by
  0 to 1499 letters \<open>a\<close>, in ascending order.
\<close>

definition bigFolder :: "s3object list" where
  "bigFolder =
     map (\<lambda>i. \<lparr>Key = ''folder/'' @ replicate i CHR ''a'', LastModified = i, Size = i\<rparr>) [0..<1500]"

definition bigWorld :: world where
  "bigWorld = \<lparr>bucket = bigFolder, clock = 1500, sent = []\<rparr>"

text \<open>
  A bucket with a draft and a final file, one with the folder \<open>a/\<close>, and one where
  the folder \<open>a/\<close> has its placeholder.
\<close>

definition draftWorld :: world where
  "draftWorld =
     \<lparr>bucket = [\<lparr>Key = ''draft.txt'', LastModified = 1, Size = 3\<rparr>,
                \<lparr>Key = ''final.txt'', LastModified = 2, Size = 4\<rparr>],
      clock = 3, sent = []\<rparr>"

definition copyWorld :: world where
  "copyWorld =
     \<lparr>bucket = [\<lparr>Key = ''a/sub/y.txt'', LastModified = 1, Size = 3\<rparr>,
                \<lparr>Key = ''a/x.txt'', LastModified = 2, Size = 4\<rparr>],
      clock = 3, sent = []\<rparr>"

definition placeholderWorld :: world where
  "placeholderWorld =
     \<lparr>bucket = [\<lparr>Key = ''a/'', LastModified = 1, Size = 0\<rparr>,
                \<lparr>Key = ''a/x.txt'', LastModified = 2, Size = 4\<rparr>],
      clock = 3, sent = []\<rparr>"

text \<open>
  The list request for the children of a prefix, and the body of the loop that seeds the
  default folders, given the names found.
\<close>

abbreviation (input) children :: "string \<Rightarrow> list_input" where
  "children p \<equiv> \<lparr>Prefix = p, Delimiter = Some CHR ''/'', ContinuationToken = None, MaxKeys = None\<rparr>"

abbreviation (input) seed :: "string \<Rightarrow> string list \<Rightarrow> string \<Rightarrow> world \<Rightarrow> world" where
  "seed root names \<equiv>
     (\<lambda>folder w'. if folder \<notin> set names then send_put (root @ folder @ ''/'') w' else w')"

text \<open>
  A root with one implicit folder; and a root with a thousand children: 999 objects named
  with one to 999 zeros, which sort before every default folder, and the implicit folder
  \<open>Legal documents/\<close>.
\<close>

definition seedWorld :: world where
  "seedWorld =
     \<lparr>bucket = [\<lparr>Key = ''r/Legal documents/x.pdf'', LastModified = 1, Size = 3\<rparr>],
      clock = 2, sent = []\<rparr>"

definition crowd :: "s3object list" where
  "crowd = map (\<lambda>i. \<lparr>Key = replicate (Suc i) CHR ''0'', LastModified = i, Size = 1\<rparr>) [0..<999]"

definition crowdedWorld :: world where
  "crowdedWorld =
     \<lparr>bucket = crowd @ [\<lparr>Key = ''Legal documents/x.pdf'', LastModified = 999, Size = 3\<rparr>],
      clock = 1000, sent = []\<rparr>"

text \<open>What a token leaves of the objects under a prefix.\<close>

definition remaining :: "string option \<Rightarrow> s3object list \<Rightarrow> s3object list" where
  "remaining token xs = (case token of None \<Rightarrow> xs | Some t \<Rightarrow> filter (\<lambda>x. t < Key x) xs)"

section \<open>Properties of the patterns\<close>

lemma rx_star: "rx_test ((P, Star) # r) s = (\<exists>u v. s = u @ v \<and> (\<forall>c\<in>set u. P c) \<and> rx_test r v)"
proof (induction s)
  case Nil
  then show ?case by simp
next
  case (Cons a s)
  show ?case
  proof
    assume "rx_test ((P, Star) # r) (a # s)"
    then consider "rx_test r (a # s)" | "P a" "rx_test ((P, Star) # r) s" by auto
    then show "\<exists>u v. a # s = u @ v \<and> (\<forall>c\<in>set u. P c) \<and> rx_test r v"
    proof cases
      case 1
      then show ?thesis by (intro exI[of _ "[]"] exI[of _ "a # s"]) simp
    next
      case 2
      then obtain u v where "s = u @ v" "\<forall>c\<in>set u. P c" "rx_test r v" using Cons.IH by blast
      with 2 show ?thesis by (intro exI[of _ "a # u"] exI[of _ v]) simp
    qed
  next
    assume "\<exists>u v. a # s = u @ v \<and> (\<forall>c\<in>set u. P c) \<and> rx_test r v"
    then obtain u v where uv: "a # s = u @ v" "\<forall>c\<in>set u. P c" "rx_test r v" by blast
    show "rx_test ((P, Star) # r) (a # s)"
    proof (cases u)
      case Nil
      with uv show ?thesis by simp
    next
      case (Cons b u')
      with uv have "b = a" "s = u' @ v" "P a" "\<forall>c\<in>set u'. P c" by auto
      with uv(3) Cons.IH show ?thesis by auto
    qed
  qed
qed

lemma rx_plus:
  "rx_test ((P, Plus) # r) s =
     (\<exists>c u v. s = c # u @ v \<and> P c \<and> (\<forall>c\<in>set u. P c) \<and> rx_test r v)"
  by (cases s) (auto simp: rx_star simp del: rx_test.simps(3))

lemma rx_star_plus_end:
  assumes sub: "\<And>c. A c \<Longrightarrow> B c"
  shows "rx_test [(B, Star), (A, Plus)] t = (t \<noteq> [] \<and> A (last t) \<and> (\<forall>c\<in>set t. B c))"
proof
  assume "rx_test [(B, Star), (A, Plus)] t"
  then obtain u c v where t: "t = u @ c # v" and u: "\<forall>x\<in>set u. B x" and c: "A c" and v: "\<forall>x\<in>set v. A x"
    unfolding rx_star rx_plus by auto
  from t c v have "A (last t)" by (cases v rule: rev_cases) auto
  with t u c v sub show "t \<noteq> [] \<and> A (last t) \<and> (\<forall>c\<in>set t. B c)" by auto
next
  assume a: "t \<noteq> [] \<and> A (last t) \<and> (\<forall>c\<in>set t. B c)"
  then have "t = butlast t @ [last t]" by simp
  moreover from a have "\<forall>x\<in>set (butlast t). B x" by (auto dest: in_set_butlastD)
  ultimately show "rx_test [(B, Star), (A, Plus)] t"
    unfolding rx_star rx_plus using a
    by (intro exI[of _ "butlast t"] exI[of _ "[last t]"] conjI) (auto intro!: exI[of _ "[]"])
qed

lemma edge_inner: "folderEdgeClass c \<Longrightarrow> folderInnerClass c"
  by (simp add: folderEdgeClass_def folderInnerClass_def)

lemma folder_rx_iff:
  "rx_test folderNameRegex t =
     (2 \<le> length t \<and> folderEdgeClass (hd t) \<and> folderEdgeClass (last t)
      \<and> (\<forall>c\<in>set t. folderInnerClass c))"
proof (cases t)
  case Nil
  then show ?thesis by (simp add: folderNameRegex_def)
next
  case (Cons a u)
  have "rx_test folderNameRegex t = (folderEdgeClass a \<and> rx_test [(folderInnerClass, Star), (folderEdgeClass, Plus)] u)"
    using Cons by (simp add: folderNameRegex_def)
  also have "\<dots> = (folderEdgeClass a \<and> u \<noteq> [] \<and> folderEdgeClass (last u) \<and> (\<forall>c\<in>set u. folderInnerClass c))"
    by (simp only: rx_star_plus_end[of folderEdgeClass folderInnerClass, OF edge_inner])
  also have "\<dots> = (2 \<le> length t \<and> folderEdgeClass (hd t) \<and> folderEdgeClass (last t)
      \<and> (\<forall>c\<in>set t. folderInnerClass c))"
    using Cons by (cases u) (auto simp: edge_inner)
  finally show ?thesis .
qed

lemma file_rx_iff:
  "rx_test fileNameRegex t =
     (\<exists>stem a b c. t = stem @ [CHR ''.'', a, b, c] \<and> stem \<noteq> [] \<and> (\<forall>x\<in>set stem. fileNameClass x)
        \<and> isLetter a \<and> isLetter b \<and> isLetter c)"
proof -
  have tail: "rx_test [(\<lambda>c. c = CHR ''.'', One), (isLetter, One), (isLetter, One), (isLetter, One)] v
     = (\<exists>a b c. v = [CHR ''.'', a, b, c] \<and> isLetter a \<and> isLetter b \<and> isLetter c)" for v
    by (auto split: list.splits)
  show ?thesis
  proof
    assume "rx_test fileNameRegex t"
    then obtain c u a b d where "t = c # u @ [CHR ''.'', a, b, d]" "fileNameClass c"
      "\<forall>x\<in>set u. fileNameClass x" "isLetter a" "isLetter b" "isLetter d"
      unfolding fileNameRegex_def rx_plus tail by blast
    then show "\<exists>stem a b c. t = stem @ [CHR ''.'', a, b, c] \<and> stem \<noteq> []
        \<and> (\<forall>x\<in>set stem. fileNameClass x) \<and> isLetter a \<and> isLetter b \<and> isLetter c"
      by (intro exI[of _ "c # u"] exI[of _ a] exI[of _ b] exI[of _ d]) simp
  next
    assume "\<exists>stem a b c. t = stem @ [CHR ''.'', a, b, c] \<and> stem \<noteq> []
        \<and> (\<forall>x\<in>set stem. fileNameClass x) \<and> isLetter a \<and> isLetter b \<and> isLetter c"
    then obtain stem a b c where t: "t = stem @ [CHR ''.'', a, b, c]" and ne: "stem \<noteq> []"
      and cl: "\<forall>x\<in>set stem. fileNameClass x" and l: "isLetter a" "isLetter b" "isLetter c"
      by blast
    from ne obtain x u where stem: "stem = x # u" by (cases stem) auto
    have "\<exists>c u' v. t = c # u' @ v \<and> fileNameClass c \<and> (\<forall>c\<in>set u'. fileNameClass c)
        \<and> (\<exists>a b c. v = [CHR ''.'', a, b, c] \<and> isLetter a \<and> isLetter b \<and> isLetter c)"
      using t stem cl l
      by (intro exI[of _ x] exI[of _ u] exI[of _ "[CHR ''.'', a, b, c]"]) simp
    then show "rx_test fileNameRegex t"
      unfolding fileNameRegex_def rx_plus tail .
  qed
qed

subsection \<open>Trimming\<close>

lemma trim_ends:
  "trim s \<noteq> [] \<Longrightarrow> \<not> isWhiteSpace (hd (trim s)) \<and> \<not> isWhiteSpace (last (trim s))"
proof -
  assume ne: "trim s \<noteq> []"
  let ?d = "dropWhile isWhiteSpace s"
  let ?r = "dropWhile isWhiteSpace (rev ?d)"
  from ne have r: "?r \<noteq> []" by (simp add: trim_def)
  then have l: "\<not> isWhiteSpace (hd ?r)" by (rule hd_dropWhile)
  from r have dne: "?d \<noteq> []" by (auto simp del: dropWhile_eq_Nil_conv)
  then have hd: "\<not> isWhiteSpace (hd ?d)" by (rule hd_dropWhile)
  have "last (trim s) = hd ?r" using r by (simp add: trim_def last_rev)
  moreover have "hd (trim s) = last ?r" using r by (simp add: trim_def hd_rev)
  moreover have "last ?r = last (rev ?d)" using r
    by (metis dropWhile_eq_Nil_conv last_appendR takeWhile_dropWhile_id)
  moreover have "last (rev ?d) = hd ?d" using dne by (simp add: last_rev)
  ultimately show ?thesis using l hd by simp
qed

lemma trim_id:
  "s \<noteq> [] \<Longrightarrow> \<not> isWhiteSpace (hd s) \<Longrightarrow> \<not> isWhiteSpace (last s) \<Longrightarrow> trim s = s"
proof -
  assume a: "s \<noteq> []" "\<not> isWhiteSpace (hd s)" "\<not> isWhiteSpace (last s)"
  then have 1: "dropWhile isWhiteSpace s = s" by (cases s) auto
  from a have "rev s \<noteq> []" "\<not> isWhiteSpace (hd (rev s))" by (simp_all add: hd_rev)
  then have "dropWhile isWhiteSpace (rev s) = rev s" by (cases "rev s") auto
  with 1 show ?thesis by (simp add: trim_def)
qed

lemma set_trim_subset: "set (trim s) \<subseteq> set s"
  unfolding trim_def by (auto dest!: set_dropWhileD)

lemma in_set_dropWhile_notP: "c \<in> set xs \<Longrightarrow> \<not> P c \<Longrightarrow> c \<in> set (dropWhile P xs)"
  by (induction xs) auto

lemma in_set_trim: "c \<in> set s \<Longrightarrow> \<not> isWhiteSpace c \<Longrightarrow> c \<in> set (trim s)"
  unfolding trim_def by (simp add: in_set_dropWhile_notP)

lemma trim_stem_ext:
  assumes "\<not> isWhiteSpace c"
  shows "trim (stem @ [CHR ''.'', a, b, c]) = dropWhile isWhiteSpace stem @ [CHR ''.'', a, b, c]"
proof -
  have dot: "\<not> isWhiteSpace CHR ''.''" by (simp add: isWhiteSpace_def)
  have "dropWhile isWhiteSpace (stem @ [CHR ''.'', a, b, c]) = dropWhile isWhiteSpace stem @ [CHR ''.'', a, b, c]"
    using dot by (simp add: dropWhile_append)
  then show ?thesis using assms by (simp add: trim_def)
qed

lemma letter_not_ws: "isLetter c \<Longrightarrow> \<not> isWhiteSpace c"
  by (auto simp: isLetter_def isWhiteSpace_def Let_def)

section \<open>Properties of the store and of the string functions\<close>

text \<open>The definitions that the evaluations of examples unfold.\<close>

lemmas class_defs = isWhiteSpace_def isLetter_def isWord_def isControl_def fileNameClass_def
  folderEdgeClass_def folderInnerClass_def forbidden_def

lemmas store_defs = listObjectsV2_def list_entries_def after_token_def max_keys_def optional_def
  startsWith_def endsWith_def

lemmas copy_defs = copyFileOrFolders_def copyFolderContents_def send_list_def send_copy_def
  replace_def store_defs

subsection \<open>Listings without a delimiter\<close>

lemma contents_of_Object [simp]: "contents_of (map Object xs) = xs"
  by (induction xs) auto

lemma prefixes_of_Object [simp]: "prefixes_of (map Object xs) = []"
  by (induction xs) auto

lemma remdups_map_Object: "remdups (map Object xs) = map Object (remdups xs)"
  by (induction xs) auto

lemma list_entries_None:
  "list_entries p None b = map Object (remdups (filter (\<lambda>x. startsWith (Key x) p) b))"
proof -
  have eq: "map (entry_of p None) xs = map Object xs" for xs by (induction xs) auto
  show ?thesis by (simp add: list_entries_def remdups_map_Object eq)
qed

lemma list_plain:
  "listObjectsV2 cfg b (plain p) =
     (let xs = remdups (filter (\<lambda>x. startsWith (Key x) p) b); n = pageLimit cfg
      in \<lparr>Contents = optional cfg (take n xs), CommonPrefixes = optional cfg [],
          IsTruncated = (0 < n \<and> n < length xs),
          NextContinuationToken =
            (if 0 < n \<and> n < length xs then Some (Key (last (take n xs))) else None)\<rparr>)"
proof -
  have l: "entry_key (last (map Object (take n xs))) = Key (last (take n xs))"
    if "0 < n" "n < length xs" for n and xs :: "s3object list"
  proof -
    from that have "take n xs \<noteq> []" by auto
    then show ?thesis by (simp add: last_map)
  qed
  show ?thesis
    by (auto simp: listObjectsV2_def list_entries_None after_token_def max_keys_def Let_def
        take_map l)
qed

lemma after_token_Object: "after_token token (map Object xs) = map Object (remaining token xs)"
  by (cases token) (simp_all add: after_token_def remaining_def filter_map comp_def)

lemma list_page:
  "listObjectsV2 cfg b \<lparr>Prefix = p, Delimiter = None, ContinuationToken = token, MaxKeys = None\<rparr> =
     (let ys = remaining token (remdups (filter (\<lambda>x. startsWith (Key x) p) b)); n = pageLimit cfg
      in \<lparr>Contents = optional cfg (take n ys), CommonPrefixes = optional cfg [],
          IsTruncated = (0 < n \<and> n < length ys),
          NextContinuationToken =
            (if 0 < n \<and> n < length ys then Some (Key (last (take n ys))) else None)\<rparr>)"
proof -
  have l: "entry_key (last (map Object (take n xs))) = Key (last (take n xs))"
    if "0 < n" "n < length xs" for n and xs :: "s3object list"
  proof -
    from that have "take n xs \<noteq> []" by auto
    then show ?thesis by (simp add: last_map)
  qed
  show ?thesis
    by (auto simp: listObjectsV2_def list_entries_None after_token_Object max_keys_def Let_def
        take_map l)
qed

subsection \<open>The bucket stays well formed\<close>

lemma wf_bucket_distinct: "wf_bucket b \<Longrightarrow> distinct (map Key b)"
  unfolding wf_bucket_def
  by (induction b) auto

lemma wf_bucket_distinct': "wf_bucket b \<Longrightarrow> distinct b"
  using wf_bucket_distinct distinct_map by blast

lemma wf_bucket_filter: "wf_bucket b \<Longrightarrow> wf_bucket (filter P b)"
  unfolding wf_bucket_def by (rule sorted_wrt_filter)

lemma wf_bucket_delete: "wf_bucket b \<Longrightarrow> wf_bucket (delete_objects keys b)"
  unfolding delete_objects_def by (rule wf_bucket_filter)

lemma keys_put_object: "Key ` set (put_object x b) = insert (Key x) (Key ` set b)"
  by (induction b) auto

lemma in_put_object_other:
  "y \<in> set b \<Longrightarrow> Key y \<noteq> Key x \<Longrightarrow> y \<in> set (put_object x b)"
  by (induction b) auto

lemma in_put_object_self: "x \<in> set (put_object x b)"
  by (induction b) auto

lemma find_put_object: "find (\<lambda>y. Key y = Key x) (put_object x b) = Some x"
  by (induction b) auto

lemma wf_put_object: "wf_bucket b \<Longrightarrow> wf_bucket (put_object x b)"
proof (induction b)
  case Nil
  then show ?case by (simp add: wf_bucket_def)
next
  case (Cons y ys)
  from Cons.prems have ys: "wf_bucket ys" and y: "\<forall>z\<in>set ys. Key y < Key z"
    by (simp_all add: wf_bucket_def)
  show ?case
  proof (cases "Key x < Key y")
    case True
    with y have "\<forall>z\<in>set ys. Key x < Key z" by auto
    with True Cons.prems show ?thesis by (simp add: wf_bucket_def)
  next
    case False
    show ?thesis
    proof (cases "Key x = Key y")
      case True
      with y ys show ?thesis by (simp add: wf_bucket_def)
    next
      case ne: False
      with False have lt: "Key y < Key x" by simp
      have "\<forall>z\<in>set (put_object x ys). Key y < Key z"
      proof
        fix z assume "z \<in> set (put_object x ys)"
        then have "Key z \<in> insert (Key x) (Key ` set ys)"
          using keys_put_object [of x ys] by blast
        with lt y show "Key y < Key z" by auto
      qed
      with Cons.IH [OF ys] False ne show ?thesis by (simp add: wf_bucket_def)
    qed
  qed
qed

lemma wf_send_put: "wf_bucket (bucket w) \<Longrightarrow> wf_bucket (bucket (send_put k w))"
  by (simp add: send_put_def wf_put_object)

lemma wf_send_delete: "wf_bucket (bucket w) \<Longrightarrow> wf_bucket (bucket (send_delete ks w))"
  by (simp add: send_delete_def wf_bucket_delete)

lemma wf_send_copy: "wf_bucket (bucket w) \<Longrightarrow> wf_bucket (bucket (snd (send_copy s k w)))"
  by (simp add: send_copy_def Let_def wf_put_object split: option.splits)

lemma find_key_wf: "wf_bucket b \<Longrightarrow> x \<in> set b \<Longrightarrow> find (\<lambda>y. Key y = Key x) b = Some x"
proof (induction b)
  case Nil
  then show ?case by simp
next
  case (Cons y ys)
  from Cons.prems(1) have ys: "wf_bucket ys" and y: "\<forall>z\<in>set ys. Key y < Key z"
    by (simp_all add: wf_bucket_def)
  show ?case
  proof (cases "x = y")
    case True
    then show ?thesis by simp
  next
    case False
    with Cons.prems(2) have "x \<in> set ys" by simp
    with y have "Key y \<noteq> Key x" by auto
    with Cons.IH [OF ys \<open>x \<in> set ys\<close>] show ?thesis by simp
  qed
qed

lemma filter_put_other:
  "\<not> P (Key x) \<Longrightarrow> filter (\<lambda>y. P (Key y)) (put_object x b) = filter (\<lambda>y. P (Key y)) b"
  by (induction b) auto

subsection \<open>Replacing a prefix\<close>

lemma indexOf_prefix: "indexOf (p @ s) p = Some 0"
proof (cases "p @ s")
  case Nil
  then show ?thesis by simp
next
  case (Cons a u)
  have "startsWith (p @ s) p" by (simp add: startsWith_def)
  then show ?thesis unfolding Cons by simp
qed

lemma replace_prefix_empty: "replace (p @ s) p [] = s"
  by (simp add: replace_def indexOf_prefix)

lemma getSubstitution_plain: "CHR ''$'' \<notin> set r \<Longrightarrow> getSubstitution m b a r = r"
  by (induction m b a r rule: getSubstitution.induct) auto

lemma replace_prefix:
  assumes "startsWith k src" "CHR ''$'' \<notin> set dst"
  shows "replace k src dst = dst @ drop (length src) k"
proof -
  from assms(1) have k: "k = src @ drop (length src) k"
    by (metis append_take_drop_id startsWith_def)
  have "indexOf k src = Some 0" by (subst k) (rule indexOf_prefix)
  then show ?thesis using assms(2) by (simp add: replace_def getSubstitution_plain)
qed

section \<open>Name validation: the claims\<close>

lemma spec_reportShaped_iff:
  "spec_reportShaped s =
     (\<exists>stem a b c. s = stem @ [CHR ''.'', a, b, c] \<and> stem \<noteq> []
        \<and> (\<forall>x\<in>set stem. isWord x \<or> isWhiteSpace x \<or> x = CHR ''-'')
        \<and> isLetter a \<and> isLetter b \<and> isLetter c)"
proof
  assume "spec_reportShaped s"
  then obtain c b a mets where r: "rev s = c # b # a # CHR ''.'' # mets" and m: "mets \<noteq> []"
    "list_all (\<lambda>x. isWord x \<or> isWhiteSpace x \<or> x = CHR ''-'') mets"
    "isLetter a" "isLetter b" "isLetter c"
    by (auto simp: spec_reportShaped_def split: list.splits)
  from r have "s = rev mets @ [CHR ''.'', a, b, c]" by (simp add: rev_swap [symmetric])
  with m show "\<exists>stem a b c. s = stem @ [CHR ''.'', a, b, c] \<and> stem \<noteq> []
        \<and> (\<forall>x\<in>set stem. isWord x \<or> isWhiteSpace x \<or> x = CHR ''-'')
        \<and> isLetter a \<and> isLetter b \<and> isLetter c"
    by (intro exI[of _ "rev mets"] exI[of _ a] exI[of _ b] exI[of _ c]) (simp add: list_all_iff)
next
  assume "\<exists>stem a b c. s = stem @ [CHR ''.'', a, b, c] \<and> stem \<noteq> []
        \<and> (\<forall>x\<in>set stem. isWord x \<or> isWhiteSpace x \<or> x = CHR ''-'')
        \<and> isLetter a \<and> isLetter b \<and> isLetter c"
  then show "spec_reportShaped s"
    by (auto simp: spec_reportShaped_def list_all_iff)
qed

lemma shaped_valid_iff:
  assumes "spec_reportShaped s"
  shows "isValidFileName s = (\<not> list_all isWhiteSpace (spec_stem s))"
proof -
  from assms obtain stem a b c where s: "s = stem @ [CHR ''.'', a, b, c]" and ne: "stem \<noteq> []"
    and cl: "\<forall>x\<in>set stem. isWord x \<or> isWhiteSpace x \<or> x = CHR ''-''"
    and l: "isLetter a" "isLetter b" "isLetter c"
    unfolding spec_reportShaped_iff by blast
  let ?d = "dropWhile isWhiteSpace stem"
  have st: "spec_stem s = stem" by (simp add: s spec_stem_def)
  have tr: "trim s = ?d @ [CHR ''.'', a, b, c]"
    unfolding s using l(3) by (intro trim_stem_ext letter_not_ws)
  have dcl: "\<forall>x\<in>set ?d. fileNameClass x"
    using cl by (auto simp: fileNameClass_def dest!: set_dropWhileD)
  have "rx_test fileNameRegex (trim s) = (?d \<noteq> [])"
  proof
    assume "rx_test fileNameRegex (trim s)"
    then obtain stem' a' b' c' where "?d @ [CHR ''.'', a, b, c] = stem' @ [CHR ''.'', a', b', c']"
      "stem' \<noteq> []" unfolding file_rx_iff tr by blast
    then show "?d \<noteq> []" by auto
  next
    assume "?d \<noteq> []"
    with dcl l show "rx_test fileNameRegex (trim s)"
      unfolding file_rx_iff tr by blast
  qed
  moreover have "(?d \<noteq> []) = (\<not> list_all isWhiteSpace stem)"
    by (simp add: list_all_iff)
  ultimately show ?thesis using s st by (simp add: isValidFileName_def)
qed

text \<open>
  Claim C9, as amended. A report-shaped file name is accepted exactly when the part
  before its dot is not all white space: the validator tests the trimmed name, so a
  name such as \<open>" .pdf"\<close> loses its stem and is rejected. \<open>"report.pdf"\<close> is
  accepted; \<open>"report"\<close> and \<open>"a/b.txt"\<close> are rejected.
\<close>

theorem C9_file_name_validation:
  "(spec_reportShaped s \<longrightarrow> isValidFileName s = (\<not> list_all isWhiteSpace (spec_stem s)))
   \<and> isValidFileName ''report.pdf''
   \<and> \<not> isValidFileName ''report'' \<and> \<not> isValidFileName ''a/b.txt''"
proof (intro conjI impI)
  show "isValidFileName s = (\<not> list_all isWhiteSpace (spec_stem s))" if "spec_reportShaped s"
    using that by (rule shaped_valid_iff)
  show "isValidFileName ''report.pdf''"
    by (simp add: isValidFileName_def trim_def fileNameRegex_def class_defs)
  show "\<not> isValidFileName ''report''"
    by (simp add: isValidFileName_def trim_def fileNameRegex_def class_defs)
  show "\<not> isValidFileName ''a/b.txt''"
    by (simp add: isValidFileName_def trim_def fileNameRegex_def class_defs)
qed

theorem C9_witness:
  "spec_reportShaped ''my report-2.pdf'' \<and> isValidFileName ''my report-2.pdf''"
proof -
  have sh: "spec_reportShaped ''my report-2.pdf''"
    by (simp add: spec_reportShaped_def class_defs)
  moreover have "\<not> list_all isWhiteSpace (spec_stem ''my report-2.pdf'')"
    by (simp add: spec_stem_def class_defs)
  ultimately show ?thesis using C9_file_name_validation [of "''my report-2.pdf''"] by simp
qed

theorem C9_counterexample:
  "spec_reportShaped '' .pdf'' \<and> \<not> isValidFileName '' .pdf''"
  by (simp add: spec_reportShaped_def isValidFileName_def trim_def fileNameRegex_def class_defs)

lemma valid_folder_iff:
  "isValidFolderName s =
     (2 \<le> length (trim s) \<and> (\<forall>c\<in>set (trim s). \<not> isControl c \<and> c \<notin> set forbidden)
      \<and> hd (trim s) \<noteq> CHR ''^'' \<and> hd (trim s) \<noteq> CHR ''.''
      \<and> last (trim s) \<noteq> CHR ''^'' \<and> last (trim s) \<noteq> CHR ''.'')"
proof (cases "trim s = []")
  case True
  then show ?thesis by (simp add: isValidFolderName_def folder_rx_iff)
next
  case False
  then have ends: "\<not> isWhiteSpace (hd (trim s))" "\<not> isWhiteSpace (last (trim s))"
    using trim_ends by blast+
  from False have "s \<noteq> []" by (auto simp: trim_def)
  moreover from False have "hd (trim s) \<in> set (trim s)" "last (trim s) \<in> set (trim s)" by simp_all
  ultimately show ?thesis
    using ends unfolding isValidFolderName_def folder_rx_iff folderEdgeClass_def folderInnerClass_def
    by auto
qed

text \<open>
  Claim C6, as amended. \<open>createFolder\<close> fails with the error "Invalid folder name!"
  exactly when the trimmed name does not have at least two characters, or holds a control
  character or one of \<open>\ ? * : " ; < > | /\<close>, or begins or ends with \<open>^\<close> or a
  period. White space around the name is trimmed away, not rejected. Every accepted name
  is written as a zero-byte object at \<open>currentPrefix + trimmed(folderName) + "/"\<close>, and
  \<open>"Legal documents"\<close> is accepted.
\<close>

theorem C6_create_folder:
  "(fst (createFolder folderName currentPrefix w) = Inl (Error ''Invalid folder name!''))
     = (\<not> (2 \<le> length (trim folderName)
           \<and> (\<forall>c\<in>set (trim folderName). \<not> isControl c \<and> c \<notin> set forbidden)
           \<and> hd (trim folderName) \<noteq> CHR ''^'' \<and> hd (trim folderName) \<noteq> CHR ''.''
           \<and> last (trim folderName) \<noteq> CHR ''^'' \<and> last (trim folderName) \<noteq> CHR ''.''))
   \<and> (isValidFolderName folderName \<longrightarrow>
        createFolder folderName currentPrefix w
          = (Inr (), send_put (currentPrefix @ trim folderName @ ''/'') w)
        \<and> find (\<lambda>x. Key x = currentPrefix @ trim folderName @ ''/'')
             (bucket (snd (createFolder folderName currentPrefix w)))
          = Some \<lparr>Key = currentPrefix @ trim folderName @ ''/'', LastModified = clock w, Size = 0\<rparr>)
   \<and> isValidFolderName ''Legal documents''"
proof (intro conjI impI)
  show "(fst (createFolder folderName currentPrefix w) = Inl (Error ''Invalid folder name!''))
     = (\<not> (2 \<le> length (trim folderName)
           \<and> (\<forall>c\<in>set (trim folderName). \<not> isControl c \<and> c \<notin> set forbidden)
           \<and> hd (trim folderName) \<noteq> CHR ''^'' \<and> hd (trim folderName) \<noteq> CHR ''.''
           \<and> last (trim folderName) \<noteq> CHR ''^'' \<and> last (trim folderName) \<noteq> CHR ''.''))"
    unfolding valid_folder_iff [symmetric] by (simp add: createFolder_def Let_def)
  assume v: "isValidFolderName folderName"
  then show "createFolder folderName currentPrefix w
          = (Inr (), send_put (currentPrefix @ trim folderName @ ''/'') w)"
    by (simp add: createFolder_def)
  let ?k = "currentPrefix @ trim folderName @ ''/''"
  have "find (\<lambda>y. Key y = Key \<lparr>Key = ?k, LastModified = clock w, Size = 0\<rparr>)
          (put_object \<lparr>Key = ?k, LastModified = clock w, Size = 0\<rparr> (bucket w))
        = Some \<lparr>Key = ?k, LastModified = clock w, Size = 0\<rparr>"
    by (rule find_put_object)
  with v show "find (\<lambda>x. Key x = ?k) (bucket (snd (createFolder folderName currentPrefix w)))
          = Some \<lparr>Key = ?k, LastModified = clock w, Size = 0\<rparr>"
    by (simp add: createFolder_def send_put_def Let_def)
next
  show "isValidFolderName ''Legal documents''"
    by (simp add: isValidFolderName_def trim_def folderNameRegex_def class_defs)
qed

theorem C6_witness:
  "isValidFolderName '' Legal documents''
   \<and> createFolder '' Legal documents'' ''docs/'' emptyWorld
       = (Inr (), \<lparr>bucket = [\<lparr>Key = ''docs/Legal documents/'', LastModified = 0, Size = 0\<rparr>],
                   clock = 1, sent = [PutObjectCommand ''docs/Legal documents/'']\<rparr>)"
proof -
  have v: "isValidFolderName '' Legal documents''"
    by (simp add: isValidFolderName_def trim_def folderNameRegex_def class_defs)
  have t: "trim '' Legal documents'' = ''Legal documents''"
    by (simp add: trim_def class_defs)
  from v C6_create_folder [of "'' Legal documents''" "''docs/''" emptyWorld]
  show ?thesis by (simp add: t send_put_def emptyWorld_def)
qed

theorem C6_counterexample:
  "spec_folderGrammar ''a''
   \<and> createFolder ''a'' ''docs/'' emptyWorld = (Inl (Error ''Invalid folder name!''), emptyWorld)"
  by (simp add: spec_folderGrammar_def spec_forbidden_def createFolder_def isValidFolderName_def
      trim_def folderNameRegex_def class_defs)

text \<open>
  Claim C10, as amended. The folder-name validator returns false for every name whose
  trimmed form is a single character, for every name that contains \<open>;\<close>, and for every
  name whose trimmed form begins or ends with \<open>^\<close>, and \<open>createFolder\<close> fails for
  them, although \<open>"a"\<close>, \<open>"a;b"\<close> and \<open>"^a"\<close> satisfy the documented grammar.
  A \<open>^\<close> inside the name is accepted, and so is white space around the name, which
  the documented grammar forbids.
\<close>

theorem C10_stricter_validator:
  "(length (trim s) = 1 \<or> CHR '';'' \<in> set s
      \<or> (trim s \<noteq> [] \<and> (hd (trim s) = CHR ''^'' \<or> last (trim s) = CHR ''^''))
    \<longrightarrow> \<not> isValidFolderName s
        \<and> createFolder s p w = (Inl (Error ''Invalid folder name!''), w))
   \<and> spec_folderGrammar ''a'' \<and> spec_folderGrammar ''a;b'' \<and> spec_folderGrammar ''^a''"
proof (intro conjI impI)
  assume a: "length (trim s) = 1 \<or> CHR '';'' \<in> set s
      \<or> (trim s \<noteq> [] \<and> (hd (trim s) = CHR ''^'' \<or> last (trim s) = CHR ''^''))"
  have "CHR '';'' \<in> set (trim s)" if "CHR '';'' \<in> set s"
    using that by (rule in_set_trim) (simp add: isWhiteSpace_def)
  moreover have "CHR '';'' \<in> set forbidden" by (simp add: forbidden_def)
  ultimately show "\<not> isValidFolderName s" using a unfolding valid_folder_iff by auto
  then show "createFolder s p w = (Inl (Error ''Invalid folder name!''), w)"
    by (simp add: createFolder_def)
qed (simp_all add: spec_folderGrammar_def spec_forbidden_def class_defs)

theorem C10_witness:
  "CHR '';'' \<in> set ''a;b'' \<and> \<not> isValidFolderName ''a;b''
   \<and> createFolder ''a;b'' ''docs/'' emptyWorld = (Inl (Error ''Invalid folder name!''), emptyWorld)"
  using C10_stricter_validator [of "''a;b''" "''docs/''" emptyWorld] by simp

theorem C10_counterexample:
  "CHR ''^'' \<in> set ''a^b'' \<and> isValidFolderName ''a^b''
   \<and> isValidFolderName '' ab'' \<and> \<not> spec_folderGrammar '' ab''"
  by (simp add: isValidFolderName_def trim_def folderNameRegex_def spec_folderGrammar_def
      class_defs)

section \<open>Listing: the claims\<close>

text \<open>
  Claim C4. Whatever the store answers: no entry of \<open>objects\<close> has size 0 together
  with a path (its key) that ends in a slash, and every entry of \<open>objects\<close> is made from
  an object of the response's \<open>Contents\<close> that is not a zero-byte key ending in a slash
  and that the exclusion pattern does not match: its path is that object's key, its size
  that object's size. Conversely, an object of \<open>Contents\<close> has its entry in
  \<open>objects\<close> exactly when it is not a zero-byte key ending in a slash and its key is
  not excluded: every placeholder is dropped, and nothing else is, but what is excluded.
\<close>

theorem C4_no_placeholder_listed:
  "(\<forall>e\<in>set (objects (listContents send env prefix)).
       \<not> (size' e = 0 \<and> endsWith (path e) ''/'')
     \<and> (\<exists>cs x. Contents (send (children prefix)) = Some cs \<and> x \<in> set cs
           \<and> \<not> (Size x = 0 \<and> endsWith (Key x) ''/'') \<and> \<not> excludeRegex env (Key x)
           \<and> e = \<lparr>name = slice (Key x) (length prefix), path = Key x,
                   url = ''https://'' @ bucketName env @ ''.s3.amazonaws.com/''
                         @ encodeURIComponent (Key x),
                   lastModified = LastModified x, size' = Size x\<rparr>))
   \<and> (\<forall>cs x. Contents (send (children prefix)) = Some cs \<and> x \<in> set cs \<longrightarrow>
         (\<lparr>name = slice (Key x) (length prefix), path = Key x,
           url = ''https://'' @ bucketName env @ ''.s3.amazonaws.com/''
                 @ encodeURIComponent (Key x),
           lastModified = LastModified x, size' = Size x\<rparr>
            \<in> set (objects (listContents send env prefix)))
         = (\<not> (Size x = 0 \<and> endsWith (Key x) ''/'') \<and> \<not> excludeRegex env (Key x)))"
proof -
  let ?entry = "\<lambda>x. \<lparr>name = slice (Key x) (length prefix), path = Key x,
                   url = ''https://'' @ bucketName env @ ''.s3.amazonaws.com/''
                         @ encodeURIComponent (Key x),
                   lastModified = LastModified x, size' = Size x\<rparr>"
  let ?keep = "\<lambda>x. \<not> (Size x = 0 \<and> endsWith (Key x) ''/'') \<and> \<not> excludeRegex env (Key x)"
  have none: "Contents (send (children prefix)) = None
              \<Longrightarrow> objects (listContents send env prefix) = []"
    by (simp add: listContents_def Let_def)
  have some: "Contents (send (children prefix)) = Some cs
              \<Longrightarrow> set (objects (listContents send env prefix)) = ?entry ` {x \<in> set cs. ?keep x}"
    for cs
    by (auto simp: listContents_def Let_def)
  have inj: "?entry x = ?entry y \<Longrightarrow> ?keep x = ?keep y" for x y
    by simp
  show ?thesis
  proof (intro conjI ballI allI impI)
    fix e assume e: "e \<in> set (objects (listContents send env prefix))"
    with none obtain cs where cs: "Contents (send (children prefix)) = Some cs"
      by (cases "Contents (send (children prefix))") auto
    from e some [OF cs] obtain x where x: "x \<in> set cs" "?keep x" "e = ?entry x" by auto
    from x(2,3) show "\<not> (size' e = 0 \<and> endsWith (path e) ''/'')" by simp
    from cs x show "\<exists>cs x. Contents (send (children prefix)) = Some cs \<and> x \<in> set cs
           \<and> \<not> (Size x = 0 \<and> endsWith (Key x) ''/'') \<and> \<not> excludeRegex env (Key x)
           \<and> e = ?entry x" by blast
  next
    fix cs x assume a: "Contents (send (children prefix)) = Some cs \<and> x \<in> set cs"
    then have cs: "Contents (send (children prefix)) = Some cs" and x: "x \<in> set cs" by simp_all
    show "(?entry x \<in> set (objects (listContents send env prefix))) = ?keep x"
    proof
      assume "?entry x \<in> set (objects (listContents send env prefix))"
      then obtain y where y: "y \<in> set cs" "?keep y" "?entry x = ?entry y"
        unfolding some [OF cs] by blast
      from inj [OF y(3)] y(2) show "?keep x" by simp
    next
      assume "?keep x"
      with x show "?entry x \<in> set (objects (listContents send env prefix))"
        unfolding some [OF cs] by blast
    qed
  qed
qed

theorem C4_witness:
  "Contents (listObjectsV2 s3Service exampleFolder (children ''p/''))
     = Some [\<lparr>Key = ''p/'', LastModified = 1, Size = 0\<rparr>,
             \<lparr>Key = ''p/a b.txt'', LastModified = 2, Size = 4\<rparr>]
   \<and> \<lparr>name = ''a b.txt'', path = ''p/a b.txt'',
       url = ''https://bucket.s3.amazonaws.com/p%2Fa%20b.txt'', lastModified = 2, size' = 4\<rparr>
     \<in> set (objects (listContents (listObjectsV2 s3Service exampleFolder) defaultEnv ''p/''))
   \<and> \<not> (size' \<lparr>name = ''a b.txt'', path = ''p/a b.txt'',
       url = ''https://bucket.s3.amazonaws.com/p%2Fa%20b.txt'', lastModified = 2, size' = 4\<rparr> = 0
      \<and> endsWith (path \<lparr>name = ''a b.txt'', path = ''p/a b.txt'',
       url = ''https://bucket.s3.amazonaws.com/p%2Fa%20b.txt'', lastModified = 2, size' = 4\<rparr>) ''/'')
   \<and> \<lparr>name = [], path = ''p/'',
       url = ''https://bucket.s3.amazonaws.com/p%2F'', lastModified = 1, size' = 0\<rparr>
     \<notin> set (objects (listContents (listObjectsV2 s3Service exampleFolder) defaultEnv ''p/''))"
proof -
  let ?cs = "[\<lparr>Key = ''p/'', LastModified = 1, Size = 0\<rparr>,
             \<lparr>Key = ''p/a b.txt'', LastModified = 2, Size = 4\<rparr>]"
  have c: "Contents (listObjectsV2 s3Service exampleFolder (children ''p/'')) = Some ?cs"
    by (simp add: store_defs s3Service_def exampleFolder_def Let_def)
  note l = C4_no_placeholder_listed [of "listObjectsV2 s3Service exampleFolder" defaultEnv "''p/''",
      THEN conjunct1, rule_format]
  note r = C4_no_placeholder_listed [of "listObjectsV2 s3Service exampleFolder" defaultEnv "''p/''",
      THEN conjunct2, rule_format, of ?cs]
  have 1: "\<lparr>name = ''a b.txt'', path = ''p/a b.txt'',
       url = ''https://bucket.s3.amazonaws.com/p%2Fa%20b.txt'', lastModified = 2, size' = 4\<rparr>
     \<in> set (objects (listContents (listObjectsV2 s3Service exampleFolder) defaultEnv ''p/''))"
    using r [of "\<lparr>Key = ''p/a b.txt'', LastModified = 2, Size = 4\<rparr>"] c
    by (simp add: defaultEnv_def slice_def endsWith_def encodeURIComponent_def percent_def
        hexDigit_def isWord_def isLetter_def Let_def)
  have 2: "\<lparr>name = [], path = ''p/'',
       url = ''https://bucket.s3.amazonaws.com/p%2F'', lastModified = 1, size' = 0\<rparr>
     \<notin> set (objects (listContents (listObjectsV2 s3Service exampleFolder) defaultEnv ''p/''))"
    using r [of "\<lparr>Key = ''p/'', LastModified = 1, Size = 0\<rparr>"] c
    by (simp add: defaultEnv_def slice_def endsWith_def encodeURIComponent_def percent_def
        hexDigit_def isWord_def isLetter_def Let_def)
  from l [OF 1] have 3: "\<not> (size' \<lparr>name = ''a b.txt'', path = ''p/a b.txt'',
       url = ''https://bucket.s3.amazonaws.com/p%2Fa%20b.txt'', lastModified = 2, size' = 4\<rparr> = 0
      \<and> endsWith (path \<lparr>name = ''a b.txt'', path = ''p/a b.txt'',
       url = ''https://bucket.s3.amazonaws.com/p%2Fa%20b.txt'', lastModified = 2, size' = 4\<rparr>) ''/'')"
    by (rule conjunct1)
  from c 1 3 2 show ?thesis by blast
qed

text \<open>
  Claim C7, as amended. The name of a folder entry is the common prefix without its first
  \<open>length prefix\<close> code units, which is the common prefix with the parent removed when it
  starts with the parent; the trailing slash stays in the name. The path is the full
  common prefix, one that the store returned, and the url is the navigation link to it.
\<close>

theorem C7_folder_entries:
  "f \<in> set (folders (listContents send env prefix))
   \<Longrightarrow> name f = drop (length prefix) (path f)
       \<and> url f = ''/?prefix='' @ path f
       \<and> (\<exists>cps. CommonPrefixes (send \<lparr>Prefix = prefix, Delimiter = Some CHR ''/'',
                                        ContinuationToken = None, MaxKeys = None\<rparr>) = Some cps
                \<and> path f \<in> set cps)
       \<and> (startsWith (path f) prefix \<longrightarrow> prefix @ name f = path f)
       \<and> (endsWith (path f) ''/'' \<and> length prefix < length (path f) \<longrightarrow> endsWith (name f) ''/'')"
proof -
  let ?req = "\<lparr>Prefix = prefix, Delimiter = Some CHR ''/'', ContinuationToken = None,
                MaxKeys = None\<rparr>"
  assume a: "f \<in> set (folders (listContents send env prefix))"
  then obtain cps where cps: "CommonPrefixes (send ?req) = Some cps"
    by (cases "CommonPrefixes (send ?req)") (auto simp: listContents_def Let_def)
  with a have "f \<in> (\<lambda>P. \<lparr>name = slice P (length prefix), path = P, url = ''/?prefix='' @ P\<rparr>)
                   ` set (filter (\<lambda>P. \<not> excludeRegex env P) cps)"
    by (simp add: listContents_def Let_def)
  then obtain P where P: "P \<in> set cps"
    and f: "f = \<lparr>name = slice P (length prefix), path = P, url = ''/?prefix='' @ P\<rparr>"
    by auto
  from f have p: "path f = P" and n: "name f = drop (length prefix) (path f)"
    and u: "url f = ''/?prefix='' @ path f"
    by (simp_all add: slice_def)
  have "prefix @ name f = path f" if "startsWith (path f) prefix"
    using that n by (metis append_take_drop_id startsWith_def)
  moreover have "endsWith (name f) ''/''" if "endsWith (path f) ''/''" "length prefix < length (path f)"
    using that n by (auto simp: endsWith_def)
  ultimately show ?thesis using n u cps P p by blast
qed

theorem C7_witness:
  "\<lparr>name = ''docs/'', path = ''p/docs/'', url = ''/?prefix=p/docs/''\<rparr>
     \<in> set (folders (listContents (listObjectsV2 s3Service exampleFolder) defaultEnv ''p/''))
   \<and> ''p/'' @ name \<lparr>name = ''docs/'', path = ''p/docs/'', url = ''/?prefix=p/docs/''\<rparr> = ''p/docs/''"
proof -
  have "folders (listContents (listObjectsV2 s3Service exampleFolder) defaultEnv ''p/'')
        = [\<lparr>name = ''docs/'', path = ''p/docs/'', url = ''/?prefix=p/docs/''\<rparr>]"
    by (simp add: listContents_def store_defs s3Service_def exampleFolder_def defaultEnv_def
        slice_def Let_def)
  then have m: "\<lparr>name = ''docs/'', path = ''p/docs/'', url = ''/?prefix=p/docs/''\<rparr>
     \<in> set (folders (listContents (listObjectsV2 s3Service exampleFolder) defaultEnv ''p/''))"
    by simp
  from m C7_folder_entries [OF m] show ?thesis by (simp add: startsWith_def)
qed

theorem C7_counterexample:
  "folders (listContents (listObjectsV2 s3Service exampleFolder) defaultEnv ''p/'')
     = [\<lparr>name = ''docs/'', path = ''p/docs/'', url = ''/?prefix=p/docs/''\<rparr>]
   \<and> ''docs/'' \<noteq> spec_displayName ''p/'' ''p/docs/''"
  by (simp add: listContents_def store_defs s3Service_def exampleFolder_def defaultEnv_def
        slice_def Let_def spec_displayName_def)

section \<open>Recursive deletion: the claims\<close>

declare deleteFolderAndContents.simps [simp del]

text \<open>
  Claim C8. When no key of the bucket starts with the prefix, \<open>deleteFolderAndContents\<close>
  sends the one list command and no delete. It returns normally if the response carries
  an empty \<open>Contents\<close>; if the response leaves \<open>Contents\<close> out, reading its length
  raises a \<open>TypeError\<close>.
\<close>

theorem C8_delete_empty_prefix:
  "\<forall>x\<in>set (bucket w). \<not> startsWith (Key x) prefix
   \<Longrightarrow> deleteFolderAndContents cfg prefix w
       = (if omitEmpty cfg then Inl TypeError else Inr (),
          w\<lparr>sent := sent w @ [ListObjectsV2Command
                 \<lparr>Prefix = prefix, Delimiter = None, ContinuationToken = None,
                  MaxKeys = None\<rparr>]\<rparr>)"
proof -
  assume "\<forall>x\<in>set (bucket w). \<not> startsWith (Key x) prefix"
  then have "filter (\<lambda>x. startsWith (Key x) prefix) (bucket w) = []" by simp
  then show ?thesis
    by (subst deleteFolderAndContents.simps)
       (simp add: send_list_def list_plain optional_def Let_def)
qed

theorem C8_witness:
  "deleteFolderAndContents s3Service ''empty/'' emptyWorld
       = (Inl TypeError,
          \<lparr>bucket = [], clock = 0,
           sent = [ListObjectsV2Command
                 \<lparr>Prefix = ''empty/'', Delimiter = None, ContinuationToken = None,
                  MaxKeys = None\<rparr>]\<rparr>)"
proof -
  have h: "\<forall>x\<in>set (bucket emptyWorld). \<not> startsWith (Key x) ''empty/''"
    by (simp add: emptyWorld_def)
  from C8_delete_empty_prefix [OF h, of s3Service] show ?thesis
    by (simp add: emptyWorld_def s3Service_def)
qed

subsection \<open>Deleting page by page\<close>

lemma del_step:
  "deleteFolderAndContents cfg p w =
     (let xs = remdups (filter (\<lambda>x. startsWith (Key x) p) (bucket w));
          n = pageLimit cfg;
          w1 = w\<lparr>sent := sent w @ [ListObjectsV2Command (plain p)]\<rparr>
      in case optional cfg (take n xs) of
           None \<Rightarrow> (Inl TypeError, w1)
         | Some cs \<Rightarrow>
             if cs = [] then (Inr (), w1)
             else if 0 < n \<and> n < length xs
                  then deleteFolderAndContents cfg p (send_delete (map Key cs) w1)
                  else (Inr (), send_delete (map Key cs) w1))"
  by (subst deleteFolderAndContents.simps)
     (simp add: send_list_def list_plain Let_def split: option.splits)

lemma filter_not_under_delete:
  assumes "\<forall>k\<in>set keys. startsWith k p"
  shows "filter (\<lambda>x. \<not> startsWith (Key x) p) (delete_objects keys b)
         = filter (\<lambda>x. \<not> startsWith (Key x) p) b"
proof -
  have "\<not> startsWith (Key x) p \<Longrightarrow> Key x \<notin> set keys" for x
    using assms by auto
  then show ?thesis
    unfolding delete_objects_def filter_filter by (intro filter_cong) auto
qed

lemma delete_all_under:
  "delete_objects (map Key (remdups (filter (\<lambda>x. startsWith (Key x) p) b))) b
   = filter (\<lambda>x. \<not> startsWith (Key x) p) b"
  unfolding delete_objects_def by (intro filter_cong) auto

lemma del_bucket:
  "0 < pageLimit cfg \<Longrightarrow>
   bucket (snd (deleteFolderAndContents cfg p w)) = filter (\<lambda>x. \<not> startsWith (Key x) p) (bucket w)"
proof (induction cfg p w rule: deleteFolderAndContents.induct)
  case (1 cfg p w)
  let ?xs = "remdups (filter (\<lambda>x. startsWith (Key x) p) (bucket w))"
  let ?n = "pageLimit cfg"
  let ?w1 = "w\<lparr>sent := sent w @ [ListObjectsV2Command (plain p)]\<rparr>"
  let ?cs = "take ?n ?xs"
  show ?case
  proof (cases "?cs = []")
    case True
    with "1.prems" have "?xs = []" by simp
    then have "filter (\<lambda>x. startsWith (Key x) p) (bucket w) = []" by simp
    then have "filter (\<lambda>x. \<not> startsWith (Key x) p) (bucket w) = bucket w"
      by (simp add: filter_empty_conv filter_id_conv)
    with True show ?thesis
      by (subst del_step) (simp add: Let_def optional_def)
  next
    case False
    then have opt: "optional cfg ?cs = Some ?cs" by (simp add: optional_def)
    have sub: "\<forall>k\<in>set (map Key ?cs). startsWith k p"
      by (auto dest!: in_set_takeD)
    show ?thesis
    proof (cases "?n < length ?xs")
      case True
      have tr: "IsTruncated (fst (send_list cfg (plain p) w))"
        using True "1.prems" by (simp add: send_list_def list_plain Let_def)
      have co: "Contents (fst (send_list cfg (plain p) w)) = Some ?cs"
        using opt by (simp add: send_list_def list_plain Let_def)
      have "bucket (snd (deleteFolderAndContents cfg p (send_delete (map Key ?cs) ?w1)))
            = filter (\<lambda>x. \<not> startsWith (Key x) p) (bucket (send_delete (map Key ?cs) ?w1))"
        using "1.IH"[OF refl refl co _ _ tr "1.prems"] False
        by (simp add: send_list_def)
      also have "\<dots> = filter (\<lambda>x. \<not> startsWith (Key x) p) (bucket w)"
        using filter_not_under_delete[OF sub] by (simp add: send_delete_def)
      finally show ?thesis
        using True False opt "1.prems" by (subst del_step) (simp add: Let_def)
    next
      case nt: False
      then have "?cs = ?xs" by simp
      then show ?thesis
        using nt False opt
        by (subst del_step) (simp add: Let_def send_delete_def delete_all_under)
    qed
  qed
qed

lemma filter_drop_distinct:
  "distinct (map f xs) \<Longrightarrow> filter (\<lambda>x. f x \<notin> f ` set (take n xs)) xs = drop n xs"
proof -
  assume d: "distinct (map f xs)"
  have "distinct (map f (take n xs @ drop n xs))" using d by simp
  then have disj: "f ` set (take n xs) \<inter> f ` set (drop n xs) = {}"
    unfolding map_append distinct_append by simp
  have "filter (\<lambda>x. f x \<notin> f ` set (take n xs)) (take n xs @ drop n xs) = drop n xs"
    unfolding filter_append using disj by (auto simp: filter_empty_conv filter_id_conv)
  then show ?thesis by simp
qed

lemma under_after_delete:
  assumes "wf_bucket b"
  shows "filter (\<lambda>x. startsWith (Key x) p)
           (delete_objects (map Key (take n (filter (\<lambda>x. startsWith (Key x) p) b))) b)
         = drop n (filter (\<lambda>x. startsWith (Key x) p) b)"
proof -
  let ?xs = "filter (\<lambda>x. startsWith (Key x) p) b"
  have d: "distinct (map Key ?xs)"
    using assms by (intro wf_bucket_distinct wf_bucket_filter)
  have "filter (\<lambda>x. startsWith (Key x) p) (delete_objects (map Key (take n ?xs)) b)
        = filter (\<lambda>x. Key x \<notin> Key ` set (take n ?xs)) ?xs"
    unfolding delete_objects_def filter_filter by (intro filter_cong) auto
  also have "\<dots> = drop n ?xs" using d by (rule filter_drop_distinct)
  finally show ?thesis .
qed

lemma ceil_step: "0 < n \<Longrightarrow> n < m \<Longrightarrow> (m + n - 1) div n = Suc ((m - n + n - 1) div n)" for m n :: nat
proof -
  assume a: "0 < n" "n < m"
  then have "(m + n - 1) div n = ((m - n + n - 1) + n) div n" by simp
  also have "\<dots> = Suc ((m - n + n - 1) div n)" using a by (simp only: div_add_self2)
  finally show ?thesis .
qed

lemma ceil_one: "0 < m \<Longrightarrow> m \<le> n \<Longrightarrow> (m + n - 1) div n = 1" for m n :: nat
proof -
  assume a: "0 < m" "m \<le> n"
  then have "(m + n - 1) div n = ((m - 1) + n) div n" by simp
  also have "\<dots> = (m - 1) div n + 1" using a by (simp only: div_add_self2)
  also have "\<dots> = 1" using a by simp
  finally show ?thesis .
qed

lemma del_calls:
  "0 < pageLimit cfg \<Longrightarrow> wf_bucket (bucket w) \<Longrightarrow>
   deleteCalls (snd (deleteFolderAndContents cfg p w))
     = deleteCalls w
       + (length (filter (\<lambda>x. startsWith (Key x) p) (bucket w)) + pageLimit cfg - 1) div pageLimit cfg
   \<and> fst (deleteFolderAndContents cfg p w)
     = (if filter (\<lambda>x. startsWith (Key x) p) (bucket w) = [] \<and> omitEmpty cfg
        then Inl TypeError else Inr ())"
proof (induction cfg p w rule: deleteFolderAndContents.induct)
  case (1 cfg p w)
  let ?ys = "filter (\<lambda>x. startsWith (Key x) p) (bucket w)"
  let ?xs = "remdups ?ys"
  let ?n = "pageLimit cfg"
  let ?w1 = "w\<lparr>sent := sent w @ [ListObjectsV2Command (plain p)]\<rparr>"
  let ?cs = "take ?n ?xs"
  have xs: "?xs = ?ys"
    using "1.prems"(2) by (intro distinct_remdups_id wf_bucket_distinct' wf_bucket_filter)
  show ?case
  proof (cases "?ys = []")
    case True
    with "1.prems"(1) show ?thesis
      by (subst (1 2) del_step) (simp add: Let_def optional_def deleteCalls_def)
  next
    case False
    with "1.prems" have ne: "?cs \<noteq> []" by (simp add: xs)
    then have opt: "optional cfg ?cs = Some ?cs" by (simp add: optional_def)
    show ?thesis
    proof (cases "?n < length ?xs")
      case True
      have tr: "IsTruncated (fst (send_list cfg (plain p) w))"
        using True "1.prems" by (simp add: send_list_def list_plain Let_def)
      have co: "Contents (fst (send_list cfg (plain p) w)) = Some ?cs"
        using opt by (simp add: send_list_def list_plain Let_def)
      let ?w2 = "send_delete (map Key ?cs) ?w1"
      have b2: "bucket ?w2 = delete_objects (map Key (take ?n ?ys)) (bucket w)"
        by (simp add: send_delete_def xs)
      have wf2: "wf_bucket (bucket ?w2)"
        unfolding b2 using "1.prems"(2) by (rule wf_bucket_delete)
      have rest: "filter (\<lambda>x. startsWith (Key x) p) (bucket ?w2) = drop ?n ?ys"
        unfolding b2 using "1.prems"(2) by (rule under_after_delete)
      have w2eq: "send_delete (map Key ?cs) (snd (send_list cfg (plain p) w)) = ?w2"
        by (simp add: send_list_def)
      from ne have len: "length ?cs \<noteq> 0" by simp
      have ih: "deleteCalls (snd (deleteFolderAndContents cfg p ?w2))
                 = deleteCalls ?w2 + (length (drop ?n ?ys) + ?n - 1) div ?n
                \<and> fst (deleteFolderAndContents cfg p ?w2)
                 = (if drop ?n ?ys = [] \<and> omitEmpty cfg then Inl TypeError else Inr ())"
        using "1.IH"[OF refl refl co len w2eq [symmetric] tr "1.prems"(1)] wf2
        unfolding w2eq rest by simp
      have dn: "drop ?n ?ys \<noteq> []" using True by (simp add: xs)
      have dc: "deleteCalls ?w2 = Suc (deleteCalls w)"
        by (simp add: deleteCalls_def send_delete_def)
      have st: "deleteFolderAndContents cfg p w = deleteFolderAndContents cfg p ?w2"
        using True ne opt "1.prems"(1) by (subst del_step) (simp add: Let_def)
      have ar: "(length ?ys + ?n - 1) div ?n = Suc ((length ?ys - ?n + ?n - 1) div ?n)"
        using True "1.prems"(1) by (intro ceil_step) (simp_all add: xs)
      show ?thesis
        unfolding st using ih dn dc ar False by simp
    next
      case nt: False
      then have "?cs = ?xs" by simp
      have "0 < length ?ys" using False by simp
      then have ar: "(length ?ys + ?n - 1) div ?n = 1"
        using nt by (intro ceil_one) (simp_all add: xs)
      have st: "deleteFolderAndContents cfg p w = (Inr (), send_delete (map Key ?cs) ?w1)"
        using nt ne opt by (subst del_step) (simp add: Let_def)
      show ?thesis
        unfolding st using False ar by (simp add: deleteCalls_def send_delete_def)
    qed
  qed
qed

lemma less_append_replicate:
  "i < j \<Longrightarrow> p @ replicate i c < p @ replicate j (c :: char)"
proof -
  assume "i < j"
  then obtain k where j: "j = i + Suc k" using less_imp_Suc_add by (metis add_Suc_right)
  have "(p @ replicate i c, (p @ replicate i c) @ replicate (Suc k) c) \<in> lexord {(u, v). u < v}"
    by (rule lexord_append_rightI) simp
  then show ?thesis
    unfolding j replicate_add list_less_def by simp
qed

lemma wf_bigFolder: "wf_bucket bigFolder"
proof -
  have "sorted_wrt (<) [0..<1500::nat]" by simp
  then have "sorted_wrt (\<lambda>i j. ''folder/'' @ replicate i CHR ''a'' < ''folder/'' @ replicate j CHR ''a'')
               [0..<1500::nat]"
    by (rule sorted_wrt_mono_rel [rotated]) (rule less_append_replicate)
  then show ?thesis
    by (simp add: wf_bucket_def bigFolder_def sorted_wrt_map)
qed

lemma bigFolder_under:
  "filter (\<lambda>x. startsWith (Key x) ''folder/'') bigFolder = bigFolder"
  by (simp add: bigFolder_def startsWith_def filter_map comp_def)

text \<open>
  Claim C2. With a positive page limit, \<open>deleteFolderAndContents\<close> leaves exactly the
  objects whose key does not start with the prefix, so none under the prefix, nested
  folders included. On a bucket with one object per key it sends one batch delete per
  page of keys under the prefix; with pages of 1000 and 1500 objects under the prefix it
  returns normally after two batch deletes.
\<close>

theorem C2_recursive_delete:
  "0 < pageLimit cfg \<Longrightarrow>
     bucket (snd (deleteFolderAndContents cfg prefix w))
       = filter (\<lambda>x. \<not> startsWith (Key x) prefix) (bucket w)
   \<and> (\<forall>x\<in>set (bucket (snd (deleteFolderAndContents cfg prefix w))). \<not> startsWith (Key x) prefix)
   \<and> (wf_bucket (bucket w) \<longrightarrow>
        deleteCalls (snd (deleteFolderAndContents cfg prefix w))
          = deleteCalls w
            + (length (filter (\<lambda>x. startsWith (Key x) prefix) (bucket w)) + pageLimit cfg - 1)
                div pageLimit cfg)
   \<and> (wf_bucket (bucket w) \<and> pageLimit cfg = 1000
        \<and> length (filter (\<lambda>x. startsWith (Key x) prefix) (bucket w)) = 1500 \<longrightarrow>
        fst (deleteFolderAndContents cfg prefix w) = Inr ()
        \<and> deleteCalls (snd (deleteFolderAndContents cfg prefix w)) = deleteCalls w + 2)"
proof (intro conjI impI ballI)
  assume L: "0 < pageLimit cfg"
  show b: "bucket (snd (deleteFolderAndContents cfg prefix w))
       = filter (\<lambda>x. \<not> startsWith (Key x) prefix) (bucket w)"
    using L by (rule del_bucket)
  show "\<not> startsWith (Key x) prefix"
    if "x \<in> set (bucket (snd (deleteFolderAndContents cfg prefix w)))" for x
    using that unfolding b by simp
  show "deleteCalls (snd (deleteFolderAndContents cfg prefix w))
          = deleteCalls w
            + (length (filter (\<lambda>x. startsWith (Key x) prefix) (bucket w)) + pageLimit cfg - 1)
                div pageLimit cfg"
    if "wf_bucket (bucket w)"
    using del_calls [OF L that] by simp
  assume a: "wf_bucket (bucket w) \<and> pageLimit cfg = 1000
        \<and> length (filter (\<lambda>x. startsWith (Key x) prefix) (bucket w)) = 1500"
  then have ne: "filter (\<lambda>x. startsWith (Key x) prefix) (bucket w) \<noteq> []" by auto
  from a have wf: "wf_bucket (bucket w)" by simp
  show "fst (deleteFolderAndContents cfg prefix w) = Inr ()"
    using del_calls [OF L wf, of prefix] ne by simp
  show "deleteCalls (snd (deleteFolderAndContents cfg prefix w)) = deleteCalls w + 2"
    using del_calls [OF L wf, of prefix] a by simp
qed

theorem C2_witness:
  "fst (deleteFolderAndContents s3Service ''folder/'' bigWorld) = Inr ()
   \<and> deleteCalls (snd (deleteFolderAndContents s3Service ''folder/'' bigWorld)) = 2
   \<and> bucket (snd (deleteFolderAndContents s3Service ''folder/'' bigWorld)) = []"
proof -
  have L: "0 < pageLimit s3Service" by (simp add: s3Service_def)
  have n: "length (filter (\<lambda>x. startsWith (Key x) ''folder/'') (bucket bigWorld)) = 1500"
    by (simp add: bigWorld_def bigFolder_under) (simp add: bigFolder_def)
  have e: "filter (\<lambda>x. \<not> startsWith (Key x) ''folder/'') (bucket bigWorld) = []"
    by (simp add: bigWorld_def bigFolder_def startsWith_def)
  have wf: "wf_bucket (bucket bigWorld)" by (simp add: bigWorld_def wf_bigFolder)
  have c: "deleteCalls bigWorld = 0" by (simp add: deleteCalls_def bigWorld_def)
  have p: "pageLimit s3Service = 1000" by (simp add: s3Service_def)
  from C2_recursive_delete [OF L, of "''folder/''" bigWorld] wf n e c p
  show ?thesis by simp
qed

section \<open>Renaming: the claims\<close>

lemma check_conflict:
  assumes L: "0 < pageLimit cfg" and x: "x \<in> set (bucket w)" "startsWith (Key x) key"
  shows "checkIfFileExists cfg key w
         = (Inl (Error ''The destination file or folder already exists.''),
            w\<lparr>sent := sent w @ [ListObjectsV2Command
                  \<lparr>Prefix = key, Delimiter = None, ContinuationToken = None,
                   MaxKeys = Some 1\<rparr>]\<rparr>)"
proof -
  let ?xs = "remdups (filter (\<lambda>x. startsWith (Key x) key) (bucket w))"
  from x have "x \<in> set ?xs" by simp
  then obtain y ys where xs: "?xs = y # ys" by (cases ?xs) auto
  have m: "min (Suc 0) (pageLimit cfg) = Suc 0" using L by simp
  have "Contents (listObjectsV2 cfg (bucket w)
           \<lparr>Prefix = key, Delimiter = None, ContinuationToken = None, MaxKeys = Some 1\<rparr>)
        = Some [y]"
    by (simp add: listObjectsV2_def list_entries_None after_token_def max_keys_def Let_def
        xs m optional_def)
  then show ?thesis
    by (simp add: checkIfFileExists_def send_list_def Let_def)
qed

text \<open>
  Claim C1, as amended. When an object exists whose key starts with the destination key
  (\<open>currentPrefix + newKey\<close>, with a slash added for a folder) and the call passes the
  checks that come first (both names non-empty, the names different, the new name valid
  for its kind), \<open>renameFile\<close> fails with "The destination file or folder already exists."
  after the one list command of the existence check: no copy and no delete is sent, and
  the bucket is as before. A call that fails one of the earlier checks returns before any
  command is sent, so the world is unchanged there too.
\<close>

theorem C1_rename_conflict:
  "0 < pageLimit cfg \<Longrightarrow> x \<in> set (bucket w)
   \<Longrightarrow> startsWith (Key x) (currentPrefix @ newKey @ (if isFolder then ''/'' else []))
   \<Longrightarrow> (oldKey \<noteq> [] \<and> newKey \<noteq> [] \<and> oldKey \<noteq> newKey
         \<and> (if isFolder then isValidFolderName newKey else isValidFileName newKey)
        \<longrightarrow> renameFile fuel cfg oldKey newKey isFolder currentPrefix w
            = Some (Inl (Error ''The destination file or folder already exists.''),
                    w\<lparr>sent := sent w @ [ListObjectsV2Command
                      \<lparr>Prefix = currentPrefix @ newKey @ (if isFolder then ''/'' else []),
                       Delimiter = None, ContinuationToken = None, MaxKeys = Some 1\<rparr>]\<rparr>))
     \<and> (\<not> (oldKey \<noteq> [] \<and> newKey \<noteq> [] \<and> oldKey \<noteq> newKey
            \<and> (if isFolder then isValidFolderName newKey else isValidFileName newKey))
        \<longrightarrow> (\<exists>r. renameFile fuel cfg oldKey newKey isFolder currentPrefix w = Some (r, w)))"
proof (intro conjI impI)
  assume L: "0 < pageLimit cfg" and x: "x \<in> set (bucket w)"
    "startsWith (Key x) (currentPrefix @ newKey @ (if isFolder then ''/'' else []))"
  {
    assume g: "oldKey \<noteq> [] \<and> newKey \<noteq> [] \<and> oldKey \<noteq> newKey
         \<and> (if isFolder then isValidFolderName newKey else isValidFileName newKey)"
    show "renameFile fuel cfg oldKey newKey isFolder currentPrefix w
            = Some (Inl (Error ''The destination file or folder already exists.''),
                    w\<lparr>sent := sent w @ [ListObjectsV2Command
                      \<lparr>Prefix = currentPrefix @ newKey @ (if isFolder then ''/'' else []),
                       Delimiter = None, ContinuationToken = None, MaxKeys = Some 1\<rparr>]\<rparr>)"
    proof (cases isFolder)
      case True
      with x have "startsWith (Key x) (currentPrefix @ newKey @ ''/'')" by simp
      from check_conflict [OF L x(1) this] g True show ?thesis
        by (simp add: renameFile_def Let_def)
    next
      case False
      with x have "startsWith (Key x) (currentPrefix @ newKey)" by simp
      from check_conflict [OF L x(1) this] g False show ?thesis
        by (simp add: renameFile_def Let_def)
    qed
  }
  {
    assume "\<not> (oldKey \<noteq> [] \<and> newKey \<noteq> [] \<and> oldKey \<noteq> newKey
            \<and> (if isFolder then isValidFolderName newKey else isValidFileName newKey))"
    then show "\<exists>r. renameFile fuel cfg oldKey newKey isFolder currentPrefix w = Some (r, w)"
      by (auto simp: renameFile_def split: if_splits)
  }
qed

theorem C1_witness:
  "renameFile 1 s3Service ''draft.txt'' ''final.txt'' False [] draftWorld
     = Some (Inl (Error ''The destination file or folder already exists.''),
             \<lparr>bucket = [\<lparr>Key = ''draft.txt'', LastModified = 1, Size = 3\<rparr>,
                        \<lparr>Key = ''final.txt'', LastModified = 2, Size = 4\<rparr>],
              clock = 3,
              sent = [ListObjectsV2Command
                        \<lparr>Prefix = ''final.txt'', Delimiter = None, ContinuationToken = None,
                         MaxKeys = Some 1\<rparr>]\<rparr>)"
proof -
  have L: "0 < pageLimit s3Service" by (simp add: s3Service_def)
  have x: "\<lparr>Key = ''final.txt'', LastModified = 2, Size = 4\<rparr> \<in> set (bucket draftWorld)"
    by (simp add: draftWorld_def)
  have s: "startsWith (Key \<lparr>Key = ''final.txt'', LastModified = 2, Size = 4\<rparr>)
             ([] @ ''final.txt'' @ (if False then ''/'' else []))"
    by (simp add: startsWith_def)
  have v: "isValidFileName ''final.txt''"
    by (simp add: isValidFileName_def trim_def fileNameRegex_def class_defs)
  from C1_rename_conflict [OF L x s, of "''draft.txt''" 1] v show ?thesis
    by (simp add: draftWorld_def)
qed

theorem C1_counterexample:
  "startsWith (Key \<lparr>Key = ''final.txt'', LastModified = 2, Size = 4\<rparr>) ''final.txt''
   \<and> \<lparr>Key = ''final.txt'', LastModified = 2, Size = 4\<rparr> \<in> set (bucket draftWorld)
   \<and> renameFile 1 s3Service ''final.txt'' ''final.txt'' False [] draftWorld
       = Some (Inr (), draftWorld)"
  by (simp add: startsWith_def draftWorld_def renameFile_def)

section \<open>Seeding the default folders: the claims\<close>

subsection \<open>The slash after a name\<close>

lemma indexOf_slash: "CHR ''/'' \<notin> set t \<Longrightarrow> indexOf (t @ ''/'') ''/'' = Some (length t)"
  by (induction t) (auto simp: startsWith_def)

lemma replace_slash_empty: "CHR ''/'' \<notin> set t \<Longrightarrow> replace (t @ ''/'') ''/'' [] = t"
  by (simp add: replace_def indexOf_slash)

lemma base_name: "CHR ''/'' \<notin> set t \<Longrightarrow> replace (replace (p @ t @ ''/'') p []) ''/'' [] = t"
  by (simp add: replace_prefix_empty replace_slash_empty)

subsection \<open>The common prefixes of a bucket\<close>

lemma entry_of_CommonPrefix:
  "entry_of p (Some d) x = CommonPrefix c \<longleftrightarrow>
     d \<in> set (drop (length p) (Key x)) \<and> c = p @ takeWhile (\<lambda>c. c \<noteq> d) (drop (length p) (Key x)) @ [d]"
  by (auto simp: Let_def)

lemma in_prefixes_of: "c \<in> set (prefixes_of es) \<longleftrightarrow> CommonPrefix c \<in> set es"
  by (induction es rule: prefixes_of.induct) auto

lemma distinct_prefixes_of: "distinct es \<Longrightarrow> distinct (prefixes_of es)"
  by (induction es rule: prefixes_of.induct) (auto simp: in_prefixes_of)

lemma common_prefix_iff:
  "CommonPrefix c \<in> set (list_entries p (Some d) b) \<longleftrightarrow>
     (\<exists>k\<in>Key ` set b. startsWith k p \<and> d \<in> set (drop (length p) k)
        \<and> c = p @ takeWhile (\<lambda>c. c \<noteq> d) (drop (length p) k) @ [d])"
proof -
  have "CommonPrefix c \<in> set (list_entries p (Some d) b) \<longleftrightarrow>
          (\<exists>x\<in>set b. startsWith (Key x) p \<and> entry_of p (Some d) x = CommonPrefix c)"
    unfolding list_entries_def set_remdups set_map
    by (auto simp del: entry_of.simps simp: image_iff)
  also have "\<dots> \<longleftrightarrow> (\<exists>x\<in>set b. startsWith (Key x) p \<and> d \<in> set (drop (length p) (Key x))
        \<and> c = p @ takeWhile (\<lambda>c. c \<noteq> d) (drop (length p) (Key x)) @ [d])"
    unfolding entry_of_CommonPrefix ..
  finally show ?thesis by auto
qed

text \<open>A common prefix of a listing under \<open>p\<close> is \<open>p\<close>, a name without a slash, and a slash.\<close>

lemma common_prefix_shape:
  assumes "CommonPrefix c \<in> set (list_entries p (Some CHR ''/'') b)"
  obtains t where "c = p @ t @ ''/''" "CHR ''/'' \<notin> set t"
proof -
  from assms obtain k where "c = p @ takeWhile (\<lambda>c. c \<noteq> CHR ''/'') (drop (length p) k) @ ''/''"
    unfolding common_prefix_iff by auto
  moreover have "CHR ''/'' \<notin> set (takeWhile (\<lambda>c. c \<noteq> CHR ''/'') (drop (length p) k))"
    by (auto dest: set_takeWhileD)
  ultimately show ?thesis using that by blast
qed

lemma common_prefix_of_key:
  assumes "p @ t @ ''/'' \<in> Key ` set b" "CHR ''/'' \<notin> set t"
  shows "CommonPrefix (p @ t @ ''/'') \<in> set (list_entries p (Some CHR ''/'') b)"
proof -
  have "takeWhile (\<lambda>c. c \<noteq> CHR ''/'') (t @ ''/'') = t"
    using assms(2) by (simp add: takeWhile_append)
  then show ?thesis
    unfolding common_prefix_iff using assms(1)
    by (intro bexI[of _ "p @ t @ ''/''"]) (auto simp: startsWith_def)
qed

lemma common_prefix_mono:
  assumes "CommonPrefix c \<in> set (list_entries p (Some d) b)" "Key ` set b \<subseteq> Key ` set b'"
  shows "CommonPrefix c \<in> set (list_entries p (Some d) b')"
  using assms unfolding common_prefix_iff by blast

subsection \<open>The loop over the default folders\<close>

lemma seed_sent:
  "sent (fold (seed root names) ds w)
   = sent w @ map (\<lambda>n. PutObjectCommand (root @ n @ ''/'')) (filter (\<lambda>n. n \<notin> set names) ds)"
  by (induction ds arbitrary: w) (auto simp: send_put_def)

lemma seed_keys:
  "Key ` set (bucket (fold (seed root names) ds w))
   = Key ` set (bucket w) \<union> (\<lambda>n. root @ n @ ''/'') ` {n \<in> set ds. n \<notin> set names}"
  by (induction ds arbitrary: w) (auto simp: send_put_def keys_put_object)

lemma seed_noop: "set ds \<subseteq> set names \<Longrightarrow> fold (seed root names) ds w = w"
  by (induction ds arbitrary: w) auto

lemma seed_preserve:
  "x \<in> set (bucket w) \<Longrightarrow> \<forall>m\<in>set ds. root @ m @ ''/'' \<noteq> Key x
   \<Longrightarrow> x \<in> set (bucket (fold (seed root names) ds w))"
proof (induction ds arbitrary: w)
  case Nil
  then show ?case by simp
next
  case (Cons d ds)
  from Cons.prems have ne: "Key x \<noteq> root @ d @ ''/''" and rest: "\<forall>m\<in>set ds. root @ m @ ''/'' \<noteq> Key x"
    by auto
  have "x \<in> set (bucket (seed root names d w))"
    using Cons.prems(1) ne by (simp add: send_put_def in_put_object_other)
  from Cons.IH [OF this rest] show ?case by simp
qed

lemma seed_placeholder:
  "distinct ds \<Longrightarrow> n \<in> set ds \<Longrightarrow> n \<notin> set names
   \<Longrightarrow> \<exists>t. \<lparr>Key = root @ n @ ''/'', LastModified = t, Size = 0\<rparr>
            \<in> set (bucket (fold (seed root names) ds w))"
proof (induction ds arbitrary: w)
  case Nil
  then show ?case by simp
next
  case (Cons d ds)
  show ?case
  proof (cases "n = d")
    case True
    let ?x = "\<lparr>Key = root @ n @ ''/'', LastModified = clock w, Size = 0\<rparr>"
    have "?x \<in> set (bucket (send_put (root @ n @ ''/'') w))"
      by (simp add: send_put_def in_put_object_self)
    moreover have "\<forall>m\<in>set ds. root @ m @ ''/'' \<noteq> Key ?x"
      using Cons.prems(1) True by auto
    ultimately have "?x \<in> set (bucket (fold (seed root names) ds (send_put (root @ n @ ''/'') w)))"
      by (rule seed_preserve)
    with True Cons.prems(3) show ?thesis by auto
  next
    case False
    with Cons.prems have "n \<in> set ds" "distinct ds" by auto
    from Cons.IH [OF this(2) this(1) Cons.prems(3)] show ?thesis by simp
  qed
qed

lemma ensure_unfold:
  "ensureDefaultFoldersExist cfg root w
   = fold (seed root (existingFolderNames root (listObjectsV2 cfg (bucket w) (children root))))
       defaultFolders (w\<lparr>sent := sent w @ [ListObjectsV2Command (children root)]\<rparr>)"
  by (simp add: ensureDefaultFoldersExist_def send_list_def Let_def)

lemma default_no_slash: "n \<in> set defaultFolders \<Longrightarrow> CHR ''/'' \<notin> set n"
  by (auto simp: defaultFolders_def)

lemma distinct_defaultFolders: "distinct defaultFolders"
  by (simp add: defaultFolders_def)

text \<open>The names found in a listing come from common prefixes of the bucket.\<close>

lemma listed_prefix:
  assumes "c \<in> set (prefixes_of (take n (list_entries p d b)))"
  shows "CommonPrefix c \<in> set (list_entries p d b)"
  using assms unfolding in_prefixes_of by (rule in_set_takeD)

lemma CommonPrefixes_children:
  "CommonPrefixes (listObjectsV2 cfg b (children root))
   = optional cfg (prefixes_of (take (pageLimit cfg) (list_entries root (Some CHR ''/'') b)))"
  by (simp add: listObjectsV2_def after_token_def max_keys_def Let_def)

lemma existing_name_prefix:
  assumes "n \<in> set (existingFolderNames root (listObjectsV2 cfg b (children root)))"
  shows "CommonPrefix (root @ n @ ''/'') \<in> set (list_entries root (Some CHR ''/'') b)"
proof -
  from assms obtain c where c: "c \<in> set (prefixes_of (take (pageLimit cfg)
                                    (list_entries root (Some CHR ''/'') b)))"
    and n: "n = replace (replace c root []) ''/'' []"
    by (auto simp: existingFolderNames_def CommonPrefixes_children optional_def
        split: if_splits)
  from c have e: "CommonPrefix c \<in> set (list_entries root (Some CHR ''/'') b)"
    by (rule listed_prefix)
  then obtain t where t: "c = root @ t @ ''/''" "CHR ''/'' \<notin> set t"
    by (rule common_prefix_shape)
  with n have "n = t" by (simp add: base_name)
  with e t show ?thesis by simp
qed

lemma complete_listing_names:
  assumes "length (list_entries root (Some CHR ''/'') b) \<le> pageLimit cfg"
    and "CommonPrefix (root @ n @ ''/'') \<in> set (list_entries root (Some CHR ''/'') b)"
    and "CHR ''/'' \<notin> set n"
  shows "n \<in> set (existingFolderNames root (listObjectsV2 cfg b (children root)))"
proof -
  let ?cps = "prefixes_of (take (pageLimit cfg) (list_entries root (Some CHR ''/'') b))"
  from assms(1,2) have m: "root @ n @ ''/'' \<in> set ?cps" by (simp add: in_prefixes_of)
  then have "?cps \<noteq> []" by auto
  then have "CommonPrefixes (listObjectsV2 cfg b (children root)) = Some ?cps"
    by (simp add: CommonPrefixes_children optional_def)
  then have "set (existingFolderNames root (listObjectsV2 cfg b (children root)))
             = (\<lambda>cp. replace (replace cp root []) ''/'' []) ` set ?cps"
    by (simp add: existingFolderNames_def)
  moreover have "replace (replace (root @ n @ ''/'') root []) ''/'' [] = n"
    using assms(3) by (rule base_name)
  ultimately show ?thesis using m by (simp add: image_iff) (metis)
qed

lemma count_list_distinct: "distinct xs \<Longrightarrow> x \<in> set xs \<Longrightarrow> count_list xs x = 1"
  by (induction xs) (auto simp: count_list_0_iff)

text \<open>
  What a run does in every state, and a case in which a second run changes nothing. After
  a run of \<open>ensureDefaultFoldersExist\<close> every canonical name is a child prefix of the
  root, once. The run sends one list command and then a put of \<open>root + name + "/"\<close>
  for exactly the canonical names that are not among the names of the listed common
  prefixes, and each of these is a zero-byte object afterwards. If the children of the
  root after the first run fit on one page of the listing, a second run sends the list
  command and nothing else: bucket and clock stay as the first run left them.
\<close>

lemma seeding_one_page:
  "(\<forall>n\<in>set defaultFolders.
      count_list (prefixes_of (list_entries root (Some CHR ''/'')
                    (bucket (ensureDefaultFoldersExist cfg root w)))) (root @ n @ ''/'') = 1)
   \<and> sent (ensureDefaultFoldersExist cfg root w)
       = sent w @ ListObjectsV2Command (children root)
           # map (\<lambda>n. PutObjectCommand (root @ n @ ''/''))
               (filter (\<lambda>n. n \<notin> set (existingFolderNames root
                                       (listObjectsV2 cfg (bucket w) (children root))))
                  defaultFolders)
   \<and> (\<forall>n\<in>set defaultFolders.
        n \<notin> set (existingFolderNames root (listObjectsV2 cfg (bucket w) (children root)))
        \<longrightarrow> (\<exists>t. \<lparr>Key = root @ n @ ''/'', LastModified = t, Size = 0\<rparr>
                  \<in> set (bucket (ensureDefaultFoldersExist cfg root w))))
   \<and> (length (list_entries root (Some CHR ''/'') (bucket (ensureDefaultFoldersExist cfg root w)))
         \<le> pageLimit cfg
       \<longrightarrow> ensureDefaultFoldersExist cfg root (ensureDefaultFoldersExist cfg root w)
           = (ensureDefaultFoldersExist cfg root w)
               \<lparr>sent := sent (ensureDefaultFoldersExist cfg root w)
                          @ [ListObjectsV2Command (children root)]\<rparr>)"
proof -
  let ?names = "existingFolderNames root (listObjectsV2 cfg (bucket w) (children root))"
  let ?w0 = "w\<lparr>sent := sent w @ [ListObjectsV2Command (children root)]\<rparr>"
  let ?w1 = "ensureDefaultFoldersExist cfg root w"
  let ?es1 = "list_entries root (Some CHR ''/'') (bucket ?w1)"
  have w1: "?w1 = fold (seed root ?names) defaultFolders ?w0" by (rule ensure_unfold)
  have keys: "Key ` set (bucket ?w1)
              = Key ` set (bucket w) \<union> (\<lambda>n. root @ n @ ''/'') ` {n \<in> set defaultFolders. n \<notin> set ?names}"
    unfolding w1 seed_keys by simp
  have child: "CommonPrefix (root @ n @ ''/'') \<in> set ?es1" if n: "n \<in> set defaultFolders" for n
  proof (cases "n \<in> set ?names")
    case True
    then have "CommonPrefix (root @ n @ ''/'') \<in> set (list_entries root (Some CHR ''/'') (bucket w))"
      by (rule existing_name_prefix)
    moreover have "Key ` set (bucket w) \<subseteq> Key ` set (bucket ?w1)" unfolding keys by blast
    ultimately show ?thesis by (rule common_prefix_mono)
  next
    case False
    with n have "root @ n @ ''/'' \<in> Key ` set (bucket ?w1)" unfolding keys by blast
    then show ?thesis using default_no_slash [OF n] by (rule common_prefix_of_key)
  qed
  have c1: "\<forall>n\<in>set defaultFolders. count_list (prefixes_of ?es1) (root @ n @ ''/'') = 1"
  proof
    fix n assume "n \<in> set defaultFolders"
    then have "root @ n @ ''/'' \<in> set (prefixes_of ?es1)" using child by (simp add: in_prefixes_of)
    moreover have "distinct (prefixes_of ?es1)"
      by (rule distinct_prefixes_of) (simp add: list_entries_def)
    ultimately show "count_list (prefixes_of ?es1) (root @ n @ ''/'') = 1"
      by (intro count_list_distinct)
  qed
  have c2: "sent ?w1 = sent w @ ListObjectsV2Command (children root)
           # map (\<lambda>n. PutObjectCommand (root @ n @ ''/''))
               (filter (\<lambda>n. n \<notin> set ?names) defaultFolders)"
    unfolding w1 seed_sent by simp
  have c3: "\<forall>n\<in>set defaultFolders. n \<notin> set ?names
        \<longrightarrow> (\<exists>t. \<lparr>Key = root @ n @ ''/'', LastModified = t, Size = 0\<rparr> \<in> set (bucket ?w1))"
  proof (intro ballI impI)
    fix n assume "n \<in> set defaultFolders" "n \<notin> set ?names"
    from seed_placeholder [OF distinct_defaultFolders this]
    show "\<exists>t. \<lparr>Key = root @ n @ ''/'', LastModified = t, Size = 0\<rparr> \<in> set (bucket ?w1)"
      unfolding w1 .
  qed
  have c4: "ensureDefaultFoldersExist cfg root ?w1
           = ?w1\<lparr>sent := sent ?w1 @ [ListObjectsV2Command (children root)]\<rparr>"
    if fit: "length ?es1 \<le> pageLimit cfg"
  proof -
    have "set defaultFolders
          \<subseteq> set (existingFolderNames root (listObjectsV2 cfg (bucket ?w1) (children root)))"
    proof
      fix n assume n: "n \<in> set defaultFolders"
      show "n \<in> set (existingFolderNames root (listObjectsV2 cfg (bucket ?w1) (children root)))"
        using fit child [OF n] default_no_slash [OF n] by (rule complete_listing_names)
    qed
    then show ?thesis
      by (subst ensure_unfold) (rule seed_noop)
  qed
  from c4 have c4': "length ?es1 \<le> pageLimit cfg
       \<longrightarrow> ensureDefaultFoldersExist cfg root ?w1
           = ?w1\<lparr>sent := sent ?w1 @ [ListObjectsV2Command (children root)]\<rparr>" by (rule impI)
  show ?thesis by (intro conjI) (rule c1, rule c2, rule c3, rule c4')
qed

lemmas seed_defs = ensureDefaultFoldersExist_def existingFolderNames_def send_list_def send_put_def
  replace_def defaultFolders_def store_defs

lemma seedWorld_once:
  "ensureDefaultFoldersExist s3Service ''r/'' seedWorld
   = \<lparr>bucket = [\<lparr>Key = ''r/Advance care planning/'', LastModified = 7, Size = 0\<rparr>,
                \<lparr>Key = ''r/Bills & Receipts/'', LastModified = 4, Size = 0\<rparr>,
                \<lparr>Key = ''r/Care payments/'', LastModified = 6, Size = 0\<rparr>,
                \<lparr>Key = ''r/Contractual agreements/'', LastModified = 3, Size = 0\<rparr>,
                \<lparr>Key = ''r/Financial documents/'', LastModified = 5, Size = 0\<rparr>,
                \<lparr>Key = ''r/Health records/'', LastModified = 2, Size = 0\<rparr>,
                \<lparr>Key = ''r/Legal documents/x.pdf'', LastModified = 1, Size = 3\<rparr>],
      clock = 8,
      sent = [ListObjectsV2Command (children ''r/''),
              PutObjectCommand ''r/Health records/'',
              PutObjectCommand ''r/Contractual agreements/'',
              PutObjectCommand ''r/Bills & Receipts/'',
              PutObjectCommand ''r/Financial documents/'',
              PutObjectCommand ''r/Care payments/'',
              PutObjectCommand ''r/Advance care planning/'']\<rparr>"
  by (simp add: seed_defs s3Service_def seedWorld_def Let_def)

lemma seedWorld_twice:
  "bucket (ensureDefaultFoldersExist s3Service ''r/''
             (ensureDefaultFoldersExist s3Service ''r/'' seedWorld))
   = bucket (ensureDefaultFoldersExist s3Service ''r/'' seedWorld)
   \<and> clock (ensureDefaultFoldersExist s3Service ''r/''
             (ensureDefaultFoldersExist s3Service ''r/'' seedWorld)) = 8"
proof -
  have "length (list_entries ''r/'' (Some CHR ''/'')
                  (bucket (ensureDefaultFoldersExist s3Service ''r/'' seedWorld)))
        \<le> pageLimit s3Service"
    unfolding seedWorld_once by (simp add: store_defs s3Service_def)
  with seeding_one_page [of "''r/''" s3Service seedWorld]
  have "ensureDefaultFoldersExist s3Service ''r/''
          (ensureDefaultFoldersExist s3Service ''r/'' seedWorld)
        = (ensureDefaultFoldersExist s3Service ''r/'' seedWorld)
            \<lparr>sent := sent (ensureDefaultFoldersExist s3Service ''r/'' seedWorld)
                       @ [ListObjectsV2Command (children ''r/'')]\<rparr>"
    by blast
  then show ?thesis by (simp add: seedWorld_once)
qed

subsection \<open>A root with a thousand children\<close>

lemma length_crowd [simp]: "length crowd = 999"
  by (simp add: crowd_def)

lemma crowd_key: "x \<in> set crowd \<Longrightarrow> \<exists>n. Key x = CHR ''0'' # replicate n CHR ''0''"
  by (auto simp: crowd_def)

lemma crowd_less: "x \<in> set crowd \<Longrightarrow> CHR ''0'' < c \<Longrightarrow> Key x < c # s"
  by (auto dest!: crowd_key)

lemma crowd_entry: "x \<in> set crowd \<Longrightarrow> entry_of [] (Some CHR ''/'') x = Object x"
  by (auto dest!: crowd_key)

lemma distinct_crowd: "distinct crowd"
proof -
  have "inj_on (\<lambda>i. \<lparr>Key = replicate (Suc i) CHR ''0'', LastModified = i, Size = 1\<rparr>) (set [0..<999])"
    by (rule inj_onI) simp
  then show ?thesis by (simp add: crowd_def distinct_map)
qed

lemma put_object_after:
  "\<forall>y\<in>set xs. Key y < Key x \<Longrightarrow> put_object x (xs @ ys) = xs @ put_object x ys"
  by (induction xs) auto

lemma put_after_crowd:
  "CHR ''0'' < c \<Longrightarrow>
   put_object \<lparr>Key = c # s, LastModified = t, Size = n\<rparr> (crowd @ ys)
   = crowd @ put_object \<lparr>Key = c # s, LastModified = t, Size = n\<rparr> ys"
  by (rule put_object_after) (simp add: crowd_less)

lemma prefixes_of_append: "prefixes_of (xs @ ys) = prefixes_of xs @ prefixes_of ys"
  by (induction xs rule: prefixes_of.induct) auto

lemma remdups_append_disjoint:
  "distinct xs \<Longrightarrow> set xs \<inter> set ys = {} \<Longrightarrow> remdups (xs @ ys) = xs @ remdups ys"
  by (induction xs) auto

lemma entries_after_crowd:
  assumes "\<forall>y\<in>set ys. \<exists>c. entry_of [] (Some CHR ''/'') y = CommonPrefix c"
  shows "list_entries [] (Some CHR ''/'') (crowd @ ys)
         = map Object crowd @ remdups (map (entry_of [] (Some CHR ''/'')) ys)"
proof -
  let ?f = "entry_of [] (Some CHR ''/'')"
  have a: "filter (\<lambda>x. startsWith (Key x) []) zs = zs" for zs :: "s3object list"
    by (simp add: startsWith_def)
  have m: "map ?f crowd = map Object crowd"
    by (rule map_cong) (simp_all add: crowd_entry del: entry_of.simps)
  have d: "distinct (map Object crowd)"
    using distinct_crowd by (simp add: distinct_map inj_on_def)
  have disj: "set (map Object crowd) \<inter> set (map ?f ys) = {}"
    using assms by (auto simp del: entry_of.simps)
  have "remdups (map Object crowd @ map ?f ys) = map Object crowd @ remdups (map ?f ys)"
    using d disj by (rule remdups_append_disjoint)
  then show ?thesis
    unfolding list_entries_def a map_append m .
qed

lemma take_after_crowd: "take 1000 (map Object crowd @ es) = map Object crowd @ take 1 es"
  by simp

lemma crowded_once:
  "ensureDefaultFoldersExist s3Service [] crowdedWorld
   = \<lparr>bucket = crowd @
               [\<lparr>Key = ''Advance care planning/'', LastModified = 1005, Size = 0\<rparr>,
                \<lparr>Key = ''Bills & Receipts/'', LastModified = 1002, Size = 0\<rparr>,
                \<lparr>Key = ''Care payments/'', LastModified = 1004, Size = 0\<rparr>,
                \<lparr>Key = ''Contractual agreements/'', LastModified = 1001, Size = 0\<rparr>,
                \<lparr>Key = ''Financial documents/'', LastModified = 1003, Size = 0\<rparr>,
                \<lparr>Key = ''Health records/'', LastModified = 1000, Size = 0\<rparr>,
                \<lparr>Key = ''Legal documents/x.pdf'', LastModified = 999, Size = 3\<rparr>],
      clock = 1006,
      sent = [ListObjectsV2Command (children []),
              PutObjectCommand ''Health records/'',
              PutObjectCommand ''Contractual agreements/'',
              PutObjectCommand ''Bills & Receipts/'',
              PutObjectCommand ''Financial documents/'',
              PutObjectCommand ''Care payments/'',
              PutObjectCommand ''Advance care planning/'']\<rparr>"
proof -
  have es: "list_entries [] (Some CHR ''/'')
              (crowd @ [\<lparr>Key = ''Legal documents/x.pdf'', LastModified = 999, Size = 3\<rparr>])
            = map Object crowd @ [CommonPrefix ''Legal documents/'']"
    by (subst entries_after_crowd) simp_all
  have names: "existingFolderNames [] (listObjectsV2 s3Service (bucket crowdedWorld) (children []))
               = [''Legal documents'']"
    by (simp add: existingFolderNames_def listObjectsV2_def after_token_def max_keys_def
        optional_def Let_def crowdedWorld_def s3Service_def es prefixes_of_append
        replace_def startsWith_def)
  show ?thesis
    unfolding ensure_unfold names
    by (simp add: defaultFolders_def crowdedWorld_def send_put_def put_after_crowd)
qed

lemma crowded_twice:
  "ensureDefaultFoldersExist s3Service [] (ensureDefaultFoldersExist s3Service [] crowdedWorld)
   = \<lparr>bucket = crowd @
               [\<lparr>Key = ''Advance care planning/'', LastModified = 1005, Size = 0\<rparr>,
                \<lparr>Key = ''Bills & Receipts/'', LastModified = 1008, Size = 0\<rparr>,
                \<lparr>Key = ''Care payments/'', LastModified = 1010, Size = 0\<rparr>,
                \<lparr>Key = ''Contractual agreements/'', LastModified = 1007, Size = 0\<rparr>,
                \<lparr>Key = ''Financial documents/'', LastModified = 1009, Size = 0\<rparr>,
                \<lparr>Key = ''Health records/'', LastModified = 1006, Size = 0\<rparr>,
                \<lparr>Key = ''Legal documents/'', LastModified = 1011, Size = 0\<rparr>,
                \<lparr>Key = ''Legal documents/x.pdf'', LastModified = 999, Size = 3\<rparr>],
      clock = 1012,
      sent = [ListObjectsV2Command (children []),
              PutObjectCommand ''Health records/'',
              PutObjectCommand ''Contractual agreements/'',
              PutObjectCommand ''Bills & Receipts/'',
              PutObjectCommand ''Financial documents/'',
              PutObjectCommand ''Care payments/'',
              PutObjectCommand ''Advance care planning/'',
              ListObjectsV2Command (children []),
              PutObjectCommand ''Health records/'',
              PutObjectCommand ''Contractual agreements/'',
              PutObjectCommand ''Bills & Receipts/'',
              PutObjectCommand ''Financial documents/'',
              PutObjectCommand ''Care payments/'',
              PutObjectCommand ''Legal documents/'']\<rparr>"
proof -
  let ?tail = "[\<lparr>Key = ''Advance care planning/'', LastModified = 1005, Size = 0\<rparr>,
                \<lparr>Key = ''Bills & Receipts/'', LastModified = 1002, Size = 0\<rparr>,
                \<lparr>Key = ''Care payments/'', LastModified = 1004, Size = 0\<rparr>,
                \<lparr>Key = ''Contractual agreements/'', LastModified = 1001, Size = 0\<rparr>,
                \<lparr>Key = ''Financial documents/'', LastModified = 1003, Size = 0\<rparr>,
                \<lparr>Key = ''Health records/'', LastModified = 1000, Size = 0\<rparr>,
                \<lparr>Key = ''Legal documents/x.pdf'', LastModified = 999, Size = 3\<rparr>]"
  have es: "list_entries [] (Some CHR ''/'') (crowd @ ?tail)
            = map Object crowd @
              [CommonPrefix ''Advance care planning/'', CommonPrefix ''Bills & Receipts/'',
               CommonPrefix ''Care payments/'', CommonPrefix ''Contractual agreements/'',
               CommonPrefix ''Financial documents/'', CommonPrefix ''Health records/'',
               CommonPrefix ''Legal documents/'']"
    by (subst entries_after_crowd) simp_all
  have names: "existingFolderNames [] (listObjectsV2 s3Service (crowd @ ?tail) (children []))
               = [''Advance care planning'']"
    by (simp add: existingFolderNames_def listObjectsV2_def after_token_def max_keys_def
        optional_def Let_def s3Service_def es prefixes_of_append
        replace_def startsWith_def)
  show ?thesis
    unfolding crowded_once
    by (subst ensure_unfold) (simp add: names defaultFolders_def send_put_def put_after_crowd)
qed

lemma crowded_second_listing:
  "listObjectsV2 s3Service (bucket (ensureDefaultFoldersExist s3Service [] crowdedWorld))
     (children [])
   = \<lparr>Contents = Some crowd, CommonPrefixes = Some [''Advance care planning/''],
      IsTruncated = True, NextContinuationToken = Some ''Advance care planning/''\<rparr>"
proof -
  let ?tail = "[\<lparr>Key = ''Advance care planning/'', LastModified = 1005, Size = 0\<rparr>,
                \<lparr>Key = ''Bills & Receipts/'', LastModified = 1002, Size = 0\<rparr>,
                \<lparr>Key = ''Care payments/'', LastModified = 1004, Size = 0\<rparr>,
                \<lparr>Key = ''Contractual agreements/'', LastModified = 1001, Size = 0\<rparr>,
                \<lparr>Key = ''Financial documents/'', LastModified = 1003, Size = 0\<rparr>,
                \<lparr>Key = ''Health records/'', LastModified = 1000, Size = 0\<rparr>,
                \<lparr>Key = ''Legal documents/x.pdf'', LastModified = 999, Size = 3\<rparr>]"
  have es: "list_entries [] (Some CHR ''/'') (crowd @ ?tail)
            = map Object crowd @
              [CommonPrefix ''Advance care planning/'', CommonPrefix ''Bills & Receipts/'',
               CommonPrefix ''Care payments/'', CommonPrefix ''Contractual agreements/'',
               CommonPrefix ''Financial documents/'', CommonPrefix ''Health records/'',
               CommonPrefix ''Legal documents/'']"
    by (subst entries_after_crowd) simp_all
  have c: "contents_of (map Object xs) = xs" for xs
    by (induction xs) simp_all
  have p: "prefixes_of (map Object xs) = []" for xs
    by (induction xs) simp_all
  have n: "crowd \<noteq> []" using length_crowd by fastforce
  have a: "contents_of (xs @ ys) = contents_of xs @ contents_of ys" for xs ys
    by (induction xs rule: contents_of.induct) simp_all
  show ?thesis
    unfolding crowded_once
    using n by (simp add: listObjectsV2_def after_token_def max_keys_def
        optional_def Let_def s3Service_def es prefixes_of_append a c p)
qed

lemma crowded_children:
  "prefixes_of (list_entries [] (Some CHR ''/'')
     (bucket (ensureDefaultFoldersExist s3Service [] crowdedWorld)))
   = [''Advance care planning/'', ''Bills & Receipts/'', ''Care payments/'',
      ''Contractual agreements/'', ''Financial documents/'', ''Health records/'',
      ''Legal documents/'']"
proof -
  have p: "prefixes_of (map Object xs) = []" for xs
    by (induction xs) simp_all
  show ?thesis
    unfolding crowded_once
    by (simp add: prefixes_of_append p) (subst entries_after_crowd, simp_all add: prefixes_of_append p)
qed

text \<open>
  Claim C3. Take a root with a thousand children: 999 objects whose keys sort before the
  canonical names, and the folder \<open>Legal documents/\<close>, which exists through the one
  file in it. The first run finds \<open>Legal documents\<close> and puts the six other
  placeholders; after it, all seven canonical names are child prefixes of the root. The
  listing of the second run is truncated: its page holds the 999 objects and the one common
  prefix \<open>Advance care planning/\<close>, and the code does not ask for the next page. So the
  second run puts \<open>Health records/\<close>, \<open>Contractual agreements/\<close>,
  \<open>Bills & Receipts/\<close>, \<open>Financial documents/\<close> and \<open>Care payments/\<close> again,
  though they are there, and adds the placeholder \<open>Legal documents/\<close>: the bucket after
  two runs is not the bucket after one.
\<close>

theorem C3_seeding_twice:
  "ensureDefaultFoldersExist s3Service [] crowdedWorld
   = \<lparr>bucket = crowd @
               [\<lparr>Key = ''Advance care planning/'', LastModified = 1005, Size = 0\<rparr>,
                \<lparr>Key = ''Bills & Receipts/'', LastModified = 1002, Size = 0\<rparr>,
                \<lparr>Key = ''Care payments/'', LastModified = 1004, Size = 0\<rparr>,
                \<lparr>Key = ''Contractual agreements/'', LastModified = 1001, Size = 0\<rparr>,
                \<lparr>Key = ''Financial documents/'', LastModified = 1003, Size = 0\<rparr>,
                \<lparr>Key = ''Health records/'', LastModified = 1000, Size = 0\<rparr>,
                \<lparr>Key = ''Legal documents/x.pdf'', LastModified = 999, Size = 3\<rparr>],
      clock = 1006,
      sent = [ListObjectsV2Command (children []),
              PutObjectCommand ''Health records/'',
              PutObjectCommand ''Contractual agreements/'',
              PutObjectCommand ''Bills & Receipts/'',
              PutObjectCommand ''Financial documents/'',
              PutObjectCommand ''Care payments/'',
              PutObjectCommand ''Advance care planning/'']\<rparr>
   \<and> prefixes_of (list_entries [] (Some CHR ''/'')
         (bucket (ensureDefaultFoldersExist s3Service [] crowdedWorld)))
     = [''Advance care planning/'', ''Bills & Receipts/'', ''Care payments/'',
        ''Contractual agreements/'', ''Financial documents/'', ''Health records/'',
        ''Legal documents/'']
   \<and> listObjectsV2 s3Service (bucket (ensureDefaultFoldersExist s3Service [] crowdedWorld))
       (children [])
     = \<lparr>Contents = Some crowd, CommonPrefixes = Some [''Advance care planning/''],
        IsTruncated = True, NextContinuationToken = Some ''Advance care planning/''\<rparr>
   \<and> ensureDefaultFoldersExist s3Service [] (ensureDefaultFoldersExist s3Service [] crowdedWorld)
   = \<lparr>bucket = crowd @
               [\<lparr>Key = ''Advance care planning/'', LastModified = 1005, Size = 0\<rparr>,
                \<lparr>Key = ''Bills & Receipts/'', LastModified = 1008, Size = 0\<rparr>,
                \<lparr>Key = ''Care payments/'', LastModified = 1010, Size = 0\<rparr>,
                \<lparr>Key = ''Contractual agreements/'', LastModified = 1007, Size = 0\<rparr>,
                \<lparr>Key = ''Financial documents/'', LastModified = 1009, Size = 0\<rparr>,
                \<lparr>Key = ''Health records/'', LastModified = 1006, Size = 0\<rparr>,
                \<lparr>Key = ''Legal documents/'', LastModified = 1011, Size = 0\<rparr>,
                \<lparr>Key = ''Legal documents/x.pdf'', LastModified = 999, Size = 3\<rparr>],
      clock = 1012,
      sent = [ListObjectsV2Command (children []),
              PutObjectCommand ''Health records/'',
              PutObjectCommand ''Contractual agreements/'',
              PutObjectCommand ''Bills & Receipts/'',
              PutObjectCommand ''Financial documents/'',
              PutObjectCommand ''Care payments/'',
              PutObjectCommand ''Advance care planning/'',
              ListObjectsV2Command (children []),
              PutObjectCommand ''Health records/'',
              PutObjectCommand ''Contractual agreements/'',
              PutObjectCommand ''Bills & Receipts/'',
              PutObjectCommand ''Financial documents/'',
              PutObjectCommand ''Care payments/'',
              PutObjectCommand ''Legal documents/'']\<rparr>
   \<and> bucket (ensureDefaultFoldersExist s3Service []
               (ensureDefaultFoldersExist s3Service [] crowdedWorld))
       \<noteq> bucket (ensureDefaultFoldersExist s3Service [] crowdedWorld)"
proof -
  have 1: "length (bucket (ensureDefaultFoldersExist s3Service [] crowdedWorld)) = 1006"
    unfolding crowded_once by simp
  have 2: "length (bucket (ensureDefaultFoldersExist s3Service []
                      (ensureDefaultFoldersExist s3Service [] crowdedWorld))) = 1007"
    unfolding crowded_twice by simp
  from 1 2 have 3: "bucket (ensureDefaultFoldersExist s3Service []
               (ensureDefaultFoldersExist s3Service [] crowdedWorld))
       \<noteq> bucket (ensureDefaultFoldersExist s3Service [] crowdedWorld)"
    by (metis numeral_eq_iff semiring_norm(89) Suc_numeral n_not_Suc_n)
  show ?thesis
    by (intro conjI) (rule crowded_once, rule crowded_children, rule crowded_second_listing,
        rule crowded_twice, rule 3)
qed

section \<open>Copying a folder: the claims\<close>

subsection \<open>The key read for a copy source\<close>

lemma urlDecode_plain:
  "CHR ''%'' \<notin> set k \<Longrightarrow> CHR ''+'' \<notin> set k \<Longrightarrow> urlDecode k = Some k"
  by (induction k) auto

lemma readCopySource_plain:
  assumes "\<forall>c\<in>set k. 32 \<le> (of_char c :: nat) \<and> (of_char c :: nat) \<le> 126"
    and "CHR ''%'' \<notin> set k" and "CHR ''+'' \<notin> set k"
  shows "readCopySource k = Some k"
  using assms by (simp add: readCopySource_def list_all_iff urlDecode_plain)

subsection \<open>One segment of a folder copy\<close>

lemma copySegment_ok:
  assumes d: "CHR ''$'' \<notin> set dst"
  shows "wf_bucket (bucket w) \<Longrightarrow> set cs \<subseteq> set (bucket w)
    \<Longrightarrow> \<forall>x\<in>set cs. startsWith (Key x) src \<and> readCopySource (Key x) = Some (Key x)
          \<and> \<not> startsWith (dst @ drop (length src) (Key x)) src
    \<Longrightarrow> \<exists>w'. copySegment src dst cs w = (Inr (), w')
          \<and> wf_bucket (bucket w')
          \<and> filter (\<lambda>x. startsWith (Key x) src) (bucket w')
              = filter (\<lambda>x. startsWith (Key x) src) (bucket w)
          \<and> sent w' = sent w @ map (\<lambda>x. CopyObjectCommand (Key x) (dst @ drop (length src) (Key x))) cs
          \<and> Key ` set (bucket w')
              = Key ` set (bucket w) \<union> (\<lambda>x. dst @ drop (length src) (Key x)) ` set cs"
proof (induction cs arbitrary: w)
  case Nil
  then show ?case by simp
next
  case (Cons x cs)
  let ?t = "dst @ drop (length src) (Key x)"
  let ?o = "\<lparr>Key = ?t, LastModified = clock w, Size = Size x\<rparr>"
  let ?w1 = "w\<lparr>bucket := put_object ?o (bucket w), clock := Suc (clock w),
               sent := sent w @ [CopyObjectCommand (Key x) ?t]\<rparr>"
  from Cons.prems have x: "x \<in> set (bucket w)" "startsWith (Key x) src" "\<not> startsWith ?t src"
    and rd: "readCopySource (Key x) = Some (Key x)"
    by auto
  from x(2,3) have ne: "Key x \<noteq> ?t" by auto
  have r: "replace (Key x) src dst = ?t" using x(2) d by (rule replace_prefix)
  have f: "find (\<lambda>y. Key y = Key x) (bucket w) = Some x"
    using Cons.prems(1) x(1) by (rule find_key_wf)
  have c: "send_copy (Key x) ?t w = (Inr (), ?w1)"
    using ne by (simp add: send_copy_def rd f Let_def)
  have step: "copySegment src dst (x # cs) w = copySegment src dst cs ?w1"
    by (simp add: r c Let_def)
  have wf1: "wf_bucket (bucket ?w1)" using Cons.prems(1) by (simp add: wf_put_object)
  have fl: "filter (\<lambda>y. startsWith (Key y) src) (bucket ?w1)
            = filter (\<lambda>y. startsWith (Key y) src) (bucket w)"
    using x(3) filter_put_other [of "\<lambda>k. startsWith k src" ?o "bucket w"] by simp
  have sub: "set cs \<subseteq> set (bucket ?w1)"
  proof
    fix y assume y: "y \<in> set cs"
    with Cons.prems have "y \<in> set (bucket w)" "startsWith (Key y) src" by auto
    then have "y \<in> set (filter (\<lambda>y. startsWith (Key y) src) (bucket ?w1))"
      unfolding fl by simp
    then show "y \<in> set (bucket ?w1)" by simp
  qed
  from Cons.prems(3) have rest: "\<forall>x\<in>set cs. startsWith (Key x) src
        \<and> readCopySource (Key x) = Some (Key x)
        \<and> \<not> startsWith (dst @ drop (length src) (Key x)) src" by simp
  from Cons.IH [OF wf1 sub rest] obtain w' where w':
    "copySegment src dst cs ?w1 = (Inr (), w')" "wf_bucket (bucket w')"
    "filter (\<lambda>x. startsWith (Key x) src) (bucket w')
       = filter (\<lambda>x. startsWith (Key x) src) (bucket ?w1)"
    "sent w' = sent ?w1 @ map (\<lambda>x. CopyObjectCommand (Key x) (dst @ drop (length src) (Key x))) cs"
    "Key ` set (bucket w')
       = Key ` set (bucket ?w1) \<union> (\<lambda>x. dst @ drop (length src) (Key x)) ` set cs"
    by blast
  have k: "Key ` set (bucket ?w1) = insert ?t (Key ` set (bucket w))"
    by (simp add: keys_put_object)
  show ?case
  proof (intro exI conjI)
    show "copySegment src dst (x # cs) w = (Inr (), w')" using step w'(1) by simp
    show "wf_bucket (bucket w')" by (rule w'(2))
    show "filter (\<lambda>x. startsWith (Key x) src) (bucket w')
          = filter (\<lambda>x. startsWith (Key x) src) (bucket w)"
      using w'(3) fl by simp
    show "sent w' = sent w @ map (\<lambda>x. CopyObjectCommand (Key x) (dst @ drop (length src) (Key x))) (x # cs)"
      using w'(4) by simp
    show "Key ` set (bucket w')
          = Key ` set (bucket w) \<union> (\<lambda>x. dst @ drop (length src) (Key x)) ` set (x # cs)"
      unfolding w'(5) k by auto
  qed
qed

subsection \<open>Pages of a sorted listing\<close>

lemma sorted_after_last_page:
  assumes s: "sorted_wrt (\<lambda>x y. Key x < Key y) ys" and n: "0 < n" "n < length ys"
  shows "filter (\<lambda>x. Key (last (take n ys)) < Key x) ys = drop n ys"
proof -
  let ?t = "Key (last (take n ys))"
  from n have ne: "take n ys \<noteq> []" by auto
  have ys: "ys = take n ys @ drop n ys" by simp
  from s have s2: "sorted_wrt (\<lambda>x y. Key x < Key y) (take n ys @ drop n ys)" by simp
  then have cross: "\<forall>x\<in>set (take n ys). \<forall>y\<in>set (drop n ys). Key x < Key y"
    and st: "sorted_wrt (\<lambda>x y. Key x < Key y) (take n ys)"
    unfolding sorted_wrt_append by auto
  have "last (take n ys) \<in> set (take n ys)" using ne by simp
  with cross have up: "\<forall>y\<in>set (drop n ys). ?t < Key y" by auto
  have low: "\<forall>x\<in>set (take n ys). \<not> ?t < Key x"
  proof
    fix x assume x: "x \<in> set (take n ys)"
    have "take n ys = butlast (take n ys) @ [last (take n ys)]" using ne by simp
    with st have "sorted_wrt (\<lambda>x y. Key x < Key y) (butlast (take n ys) @ [last (take n ys)])"
      by simp
    then have b: "\<forall>z\<in>set (butlast (take n ys)). Key z < ?t"
      unfolding sorted_wrt_append by simp
    from x ne have "x \<in> set (butlast (take n ys)) \<or> x = last (take n ys)"
      by (metis append_butlast_last_id in_set_conv_decomp_last rotate1.simps(2) set_ConsD set_rotate1)
    with b show "\<not> ?t < Key x" by auto
  qed
  have "filter (\<lambda>x. ?t < Key x) (take n ys @ drop n ys) = drop n ys"
    unfolding filter_append using up low by (simp add: filter_empty_conv filter_id_conv)
  then show ?thesis by simp
qed

lemma remaining_next:
  assumes s: "sorted_wrt (\<lambda>x y. Key x < Key y) xs" and n: "0 < n" "n < length (remaining token xs)"
  shows "remaining (Some (Key (last (take n (remaining token xs))))) xs
         = drop n (remaining token xs)"
proof -
  let ?ys = "remaining token xs"
  let ?t = "Key (last (take n ?ys))"
  have sy: "sorted_wrt (\<lambda>x y. Key x < Key y) ?ys"
    using s by (cases token) (simp_all add: remaining_def sorted_wrt_filter)
  have "filter (\<lambda>x. ?t < Key x) xs = filter (\<lambda>x. ?t < Key x) ?ys"
  proof (cases token)
    case None
    then show ?thesis by (simp add: remaining_def)
  next
    case (Some t)
    from n have "take n ?ys \<noteq> []" by auto
    then have "last (take n ?ys) \<in> set ?ys" by (meson in_set_takeD last_in_set)
    then have "t < ?t" using Some by (simp add: remaining_def)
    then have e: "(t < Key x \<and> ?t < Key x) = (?t < Key x)" for x by auto
    have "filter (\<lambda>x. ?t < Key x) (filter (\<lambda>x. t < Key x) xs) = filter (\<lambda>x. ?t < Key x) xs"
      unfolding filter_filter by (rule filter_cong) (auto simp: e)
    then show ?thesis using Some by (simp add: remaining_def)
  qed
  also have "\<dots> = drop n ?ys" using sy n by (rule sorted_after_last_page)
  finally show ?thesis by (simp add: remaining_def)
qed

subsection \<open>The loop over the segments\<close>

lemma copy_loop_total:
  assumes L: "0 < pageLimit cfg" and d: "CHR ''$'' \<notin> set dst" and s: "src \<noteq> []"
  shows "wf_bucket (bucket w)
    \<Longrightarrow> \<forall>x\<in>set (bucket w). startsWith (Key x) src
            \<longrightarrow> readCopySource (Key x) = Some (Key x)
                \<and> \<not> startsWith (dst @ drop (length src) (Key x)) src
    \<Longrightarrow> remaining token (filter (\<lambda>x. startsWith (Key x) src) (bucket w)) = ys
    \<Longrightarrow> ys \<noteq> [] \<or> \<not> omitEmpty cfg
    \<Longrightarrow> \<exists>fuel w'. copyFolderLoop fuel cfg src dst token w = Some (Inr (), w')
          \<and> wf_bucket (bucket w')
          \<and> filter (\<lambda>x. startsWith (Key x) src) (bucket w')
              = filter (\<lambda>x. startsWith (Key x) src) (bucket w)
          \<and> (\<exists>cmds. sent w' = sent w @ cmds)
          \<and> (\<forall>x\<in>set ys. CopyObjectCommand (Key x) (dst @ drop (length src) (Key x))
                            \<in> set (sent w'))
          \<and> Key ` set (bucket w')
              = Key ` set (bucket w) \<union> (\<lambda>x. dst @ drop (length src) (Key x)) ` set ys"
proof (induction "length ys" arbitrary: ys token w rule: less_induct)
  case less
  let ?under = "\<lambda>x. startsWith (Key x) src"
  let ?tgt = "\<lambda>x. dst @ drop (length src) (Key x)"
  let ?xs = "filter ?under (bucket w)"
  let ?n = "pageLimit cfg"
  let ?req = "\<lparr>Prefix = src, Delimiter = None, ContinuationToken = token, MaxKeys = None\<rparr>"
  let ?w1 = "w\<lparr>sent := sent w @ [ListObjectsV2Command ?req]\<rparr>"
  let ?page = "take ?n ys"
  note wf = less.prems(1) and tg = less.prems(2) and ys = less.prems(3) and ne = less.prems(4)
  have dx: "remdups ?xs = ?xs"
    using wf by (intro distinct_remdups_id wf_bucket_distinct' wf_bucket_filter)
  have sx: "sorted_wrt (\<lambda>x y. Key x < Key y) ?xs"
    using wf unfolding wf_bucket_def by (rule sorted_wrt_filter)
  have ysub: "set ys \<subseteq> set ?xs"
    using ys by (cases token) (auto simp: remaining_def)
  have resp: "listObjectsV2 cfg (bucket w) ?req
      = \<lparr>Contents = optional cfg ?page, CommonPrefixes = optional cfg [],
         IsTruncated = (?n < length ys),
         NextContinuationToken = (if ?n < length ys then Some (Key (last ?page)) else None)\<rparr>"
    using L by (simp add: list_page dx ys Let_def)
  have opt: "optional cfg ?page = Some ?page"
    using ne L by (auto simp: optional_def)
  have psub: "set ?page \<subseteq> set (bucket ?w1)"
    using ysub by (auto dest!: in_set_takeD)
  have pcond: "\<forall>x\<in>set ?page. ?under x \<and> readCopySource (Key x) = Some (Key x)
                  \<and> \<not> startsWith (?tgt x) src"
    using ysub tg by (auto dest!: in_set_takeD)
  have wf1: "wf_bucket (bucket ?w1)" using wf by simp
  from copySegment_ok [OF d wf1 psub pcond] obtain w2 where w2:
    "copySegment src dst ?page ?w1 = (Inr (), w2)" "wf_bucket (bucket w2)"
    "filter ?under (bucket w2) = ?xs"
    "sent w2 = sent ?w1 @ map (\<lambda>x. CopyObjectCommand (Key x) (?tgt x)) ?page"
    "Key ` set (bucket w2) = Key ` set (bucket w) \<union> ?tgt ` set ?page"
    by auto
  have pagecopies: "\<forall>x\<in>set ?page. CopyObjectCommand (Key x) (?tgt x) \<in> set (sent w2)"
    unfolding w2(4) by auto
  show ?case
  proof (cases "?n < length ys")
    case False
    then have all: "?page = ys" by simp
    from opt all have opt': "optional cfg ys = Some ys" by simp
    from w2(1) all have seg: "copySegment src dst ys ?w1 = (Inr (), w2)" by simp
    have run: "copyFolderLoop (Suc 0) cfg src dst token w = Some (Inr (), w2)"
      using False by (simp add: send_list_def resp opt' seg Let_def)
    show ?thesis
    proof (intro exI conjI)
      show "copyFolderLoop (Suc 0) cfg src dst token w = Some (Inr (), w2)" by (rule run)
      show "wf_bucket (bucket w2)" by (rule w2(2))
      show "filter ?under (bucket w2) = ?xs" by (rule w2(3))
      show "sent w2 = sent w @ (ListObjectsV2Command ?req
              # map (\<lambda>x. CopyObjectCommand (Key x) (?tgt x)) ?page)"
        unfolding w2(4) by simp
      show "\<forall>x\<in>set ys. CopyObjectCommand (Key x) (?tgt x) \<in> set (sent w2)"
        using pagecopies all by simp
      show "Key ` set (bucket w2) = Key ` set (bucket w) \<union> ?tgt ` set ys"
        using w2(5) all by simp
    qed
  next
    case True
    let ?t = "Key (last ?page)"
    let ?ys' = "drop ?n ys"
    from True L have pne: "?page \<noteq> []" by auto
    then have "last ?page \<in> set ?page" by simp
    with pcond have "startsWith ?t src" by blast
    with s have tne: "?t \<noteq> []" by (auto simp: startsWith_def)
    have step: "copyFolderLoop (Suc fuel) cfg src dst token w
                = copyFolderLoop fuel cfg src dst (Some ?t) w2" for fuel
      using True w2(1) tne by (simp add: send_list_def resp opt Let_def)
    have len: "length ?ys' < length ys" using True L by simp
    have tg2: "\<forall>x\<in>set (bucket w2). ?under x
                 \<longrightarrow> readCopySource (Key x) = Some (Key x) \<and> \<not> startsWith (?tgt x) src"
    proof (intro ballI impI)
      fix x assume "x \<in> set (bucket w2)" "?under x"
      then have "x \<in> set (filter ?under (bucket w2))" by simp
      then have "x \<in> set (bucket w)" unfolding w2(3) by simp
      with tg \<open>?under x\<close>
      show "readCopySource (Key x) = Some (Key x) \<and> \<not> startsWith (?tgt x) src" by blast
    qed
    have rem2: "remaining (Some ?t) (filter ?under (bucket w2)) = ?ys'"
      unfolding w2(3) using remaining_next [OF sx L, of token] True ys by simp
    have ne2: "?ys' \<noteq> [] \<or> \<not> omitEmpty cfg" using True by simp
    from less.hyps [OF len w2(2) tg2 rem2 ne2] obtain fuel w' cmds where w':
      "copyFolderLoop fuel cfg src dst (Some ?t) w2 = Some (Inr (), w')"
      "wf_bucket (bucket w')"
      "filter ?under (bucket w') = filter ?under (bucket w2)"
      "sent w' = sent w2 @ cmds"
      "\<forall>x\<in>set ?ys'. CopyObjectCommand (Key x) (?tgt x) \<in> set (sent w')"
      "Key ` set (bucket w') = Key ` set (bucket w2) \<union> ?tgt ` set ?ys'"
      by blast
    have split: "set ys = set ?page \<union> set ?ys'"
      by (metis append_take_drop_id set_append)
    show ?thesis
    proof (intro exI conjI)
      show "copyFolderLoop (Suc fuel) cfg src dst token w = Some (Inr (), w')"
        using step w'(1) by simp
      show "wf_bucket (bucket w')" by (rule w'(2))
      show "filter ?under (bucket w') = ?xs" using w'(3) w2(3) by simp
      show "sent w' = sent w @ (ListObjectsV2Command ?req
              # map (\<lambda>x. CopyObjectCommand (Key x) (?tgt x)) ?page @ cmds)"
        unfolding w'(4) w2(4) by simp
      show "\<forall>x\<in>set ys. CopyObjectCommand (Key x) (?tgt x) \<in> set (sent w')"
        unfolding split using pagecopies w'(5) w'(4) by auto
      show "Key ` set (bucket w') = Key ` set (bucket w) \<union> ?tgt ` set ys"
        unfolding w'(6) w2(5) split by auto
    qed
  qed
qed


subsection \<open>A folder copy away from the dollar sign\<close>

text \<open>
  What the copy does when nothing stands in its way. Take a source prefix that ends in a
  slash and a destination without a dollar sign, a bucket with one object per key and a
  positive page limit. Suppose that the store reads the key of every object under the
  source prefix as it stands, that no copy lands under the source prefix again, and that
  the source folder is not empty (or the response carries an empty \<open>Contents\<close>). Then
  with enough fuel \<open>copyFileOrFolders\<close> returns normally, and for every object under
  the source prefix, whatever page lists it, a copy to the destination followed by the
  rest of the key has been sent and that key is in the bucket.
\<close>

lemma copy_folder_literal:
  assumes L: "0 < pageLimit cfg" and wf: "wf_bucket (bucket w)"
    and e: "endsWith sourceKey ''/''" and d: "CHR ''$'' \<notin> set destinationKey"
    and tg: "\<forall>x\<in>set (bucket w). startsWith (Key x) sourceKey
            \<longrightarrow> readCopySource (Key x) = Some (Key x)
                \<and> \<not> startsWith (destinationKey @ drop (length sourceKey) (Key x)) sourceKey"
    and ne: "(\<exists>x\<in>set (bucket w). startsWith (Key x) sourceKey) \<or> \<not> omitEmpty cfg"
  shows "\<exists>fuel w'. copyFileOrFolders fuel cfg sourceKey destinationKey w = Some (Inr (), w')
          \<and> (\<forall>x\<in>set (bucket w). startsWith (Key x) sourceKey \<longrightarrow>
                CopyObjectCommand (Key x) (destinationKey @ drop (length sourceKey) (Key x))
                  \<in> set (sent w')
                \<and> destinationKey @ drop (length sourceKey) (Key x) \<in> Key ` set (bucket w'))"
proof -
  let ?ys = "filter (\<lambda>x. startsWith (Key x) sourceKey) (bucket w)"
  from e have s: "sourceKey \<noteq> []" by (auto simp: endsWith_def)
  from ne have ne': "?ys \<noteq> [] \<or> \<not> omitEmpty cfg" by (auto simp: filter_empty_conv)
  have r: "remaining None ?ys = ?ys" by (simp add: remaining_def)
  from copy_loop_total [OF L d s wf tg r ne'] obtain fuel w' where w':
    "copyFolderLoop fuel cfg sourceKey destinationKey None w = Some (Inr (), w')"
    "\<forall>x\<in>set ?ys. CopyObjectCommand (Key x) (destinationKey @ drop (length sourceKey) (Key x))
                    \<in> set (sent w')"
    "Key ` set (bucket w')
       = Key ` set (bucket w) \<union> (\<lambda>x. destinationKey @ drop (length sourceKey) (Key x)) ` set ?ys"
    by blast
  show ?thesis
  proof (intro exI conjI ballI impI)
    show "copyFileOrFolders fuel cfg sourceKey destinationKey w = Some (Inr (), w')"
      using e w'(1) by (simp add: copyFileOrFolders_def copyFolderContents_def)
    fix x assume x: "x \<in> set (bucket w)" "startsWith (Key x) sourceKey"
    then have m: "x \<in> set ?ys" by simp
    with w'(2) show "CopyObjectCommand (Key x) (destinationKey @ drop (length sourceKey) (Key x))
                  \<in> set (sent w')" by blast
    from m show "destinationKey @ drop (length sourceKey) (Key x) \<in> Key ` set (bucket w')"
      unfolding w'(3) by blast
  qed
qed

subsection \<open>The destination as a replacement pattern\<close>

lemma valid_dollars: "isValidFolderName ''$$$$''"
  by (simp add: isValidFolderName_def trim_def folderNameRegex_def class_defs)

text \<open>
  Claim C5. Copying the folder \<open>a/\<close>, which holds \<open>a/x.txt\<close> and \<open>a/sub/y.txt\<close>, to
  \<open>b/\<close> copies them to \<open>b/x.txt\<close> and \<open>b/sub/y.txt\<close>. But the destination is
  handed to \<open>replace\<close> as a replacement pattern: copying the same folder to \<open>$$/\<close>
  copies them to \<open>$/x.txt\<close> and \<open>$/sub/y.txt\<close>, not to \<open>$$/x.txt\<close> and
  \<open>$$/sub/y.txt\<close>. \<open>renameFile\<close> makes that call when the folder \<open>a\<close>, which holds
  its placeholder \<open>a/\<close> and \<open>a/x.txt\<close>, is renamed to \<open>$$$$\<close>: for the placeholder
  it calls \<open>copyFileOrFolders\<close> on \<open>a/\<close> and \<open>$$/\<close>, which lists the folder and
  copies \<open>a/\<close> to \<open>$/\<close> and \<open>a/x.txt\<close> to \<open>$/x.txt\<close>.
\<close>

theorem C5_copy_folder:
  "copyFileOrFolders 1 s3Service ''a/'' ''b/'' copyWorld
     = Some (Inr (),
         \<lparr>bucket = [\<lparr>Key = ''a/sub/y.txt'', LastModified = 1, Size = 3\<rparr>,
                    \<lparr>Key = ''a/x.txt'', LastModified = 2, Size = 4\<rparr>,
                    \<lparr>Key = ''b/sub/y.txt'', LastModified = 3, Size = 3\<rparr>,
                    \<lparr>Key = ''b/x.txt'', LastModified = 4, Size = 4\<rparr>],
          clock = 5,
          sent = [ListObjectsV2Command
                    \<lparr>Prefix = ''a/'', Delimiter = None, ContinuationToken = None, MaxKeys = None\<rparr>,
                  CopyObjectCommand ''a/sub/y.txt'' ''b/sub/y.txt'',
                  CopyObjectCommand ''a/x.txt'' ''b/x.txt'']\<rparr>)
   \<and> copyFileOrFolders 1 s3Service ''a/'' ''$$/'' copyWorld
     = Some (Inr (),
         \<lparr>bucket = [\<lparr>Key = ''$/sub/y.txt'', LastModified = 3, Size = 3\<rparr>,
                    \<lparr>Key = ''$/x.txt'', LastModified = 4, Size = 4\<rparr>,
                    \<lparr>Key = ''a/sub/y.txt'', LastModified = 1, Size = 3\<rparr>,
                    \<lparr>Key = ''a/x.txt'', LastModified = 2, Size = 4\<rparr>],
          clock = 5,
          sent = [ListObjectsV2Command
                    \<lparr>Prefix = ''a/'', Delimiter = None, ContinuationToken = None, MaxKeys = None\<rparr>,
                  CopyObjectCommand ''a/sub/y.txt'' ''$/sub/y.txt'',
                  CopyObjectCommand ''a/x.txt'' ''$/x.txt'']\<rparr>)
   \<and> replace ''a/'' ''a/'' ''$$$$/'' = ''$$/''
   \<and> renameFile 1 s3Service ''a'' ''$$$$'' True [] placeholderWorld
     = Some (Inr (),
         \<lparr>bucket = [\<lparr>Key = ''$$/x.txt'', LastModified = 5, Size = 4\<rparr>,
                    \<lparr>Key = ''$/'', LastModified = 3, Size = 0\<rparr>,
                    \<lparr>Key = ''$/x.txt'', LastModified = 4, Size = 4\<rparr>],
          clock = 7,
          sent = [ListObjectsV2Command
                    \<lparr>Prefix = ''$$$$/'', Delimiter = None, ContinuationToken = None,
                     MaxKeys = Some 1\<rparr>,
                  ListObjectsV2Command
                    \<lparr>Prefix = ''a/'', Delimiter = None, ContinuationToken = None, MaxKeys = None\<rparr>,
                  ListObjectsV2Command
                    \<lparr>Prefix = ''a/'', Delimiter = None, ContinuationToken = None, MaxKeys = None\<rparr>,
                  CopyObjectCommand ''a/'' ''$/'',
                  CopyObjectCommand ''a/x.txt'' ''$/x.txt'',
                  CopyObjectCommand ''a/x.txt'' ''$$/x.txt'',
                  ListObjectsV2Command
                    \<lparr>Prefix = ''a/'', Delimiter = None, ContinuationToken = None, MaxKeys = None\<rparr>,
                  DeleteObjectsCommand [''a/'', ''a/x.txt'']]\<rparr>)"
proof (intro conjI)
  show "copyFileOrFolders 1 s3Service ''a/'' ''b/'' copyWorld
     = Some (Inr (),
         \<lparr>bucket = [\<lparr>Key = ''a/sub/y.txt'', LastModified = 1, Size = 3\<rparr>,
                    \<lparr>Key = ''a/x.txt'', LastModified = 2, Size = 4\<rparr>,
                    \<lparr>Key = ''b/sub/y.txt'', LastModified = 3, Size = 3\<rparr>,
                    \<lparr>Key = ''b/x.txt'', LastModified = 4, Size = 4\<rparr>],
          clock = 5,
          sent = [ListObjectsV2Command
                    \<lparr>Prefix = ''a/'', Delimiter = None, ContinuationToken = None, MaxKeys = None\<rparr>,
                  CopyObjectCommand ''a/sub/y.txt'' ''b/sub/y.txt'',
                  CopyObjectCommand ''a/x.txt'' ''b/x.txt'']\<rparr>)"
    by (simp add: copy_defs readCopySource_def s3Service_def copyWorld_def Let_def)
  show "copyFileOrFolders 1 s3Service ''a/'' ''$$/'' copyWorld
     = Some (Inr (),
         \<lparr>bucket = [\<lparr>Key = ''$/sub/y.txt'', LastModified = 3, Size = 3\<rparr>,
                    \<lparr>Key = ''$/x.txt'', LastModified = 4, Size = 4\<rparr>,
                    \<lparr>Key = ''a/sub/y.txt'', LastModified = 1, Size = 3\<rparr>,
                    \<lparr>Key = ''a/x.txt'', LastModified = 2, Size = 4\<rparr>],
          clock = 5,
          sent = [ListObjectsV2Command
                    \<lparr>Prefix = ''a/'', Delimiter = None, ContinuationToken = None, MaxKeys = None\<rparr>,
                  CopyObjectCommand ''a/sub/y.txt'' ''$/sub/y.txt'',
                  CopyObjectCommand ''a/x.txt'' ''$/x.txt'']\<rparr>)"
    by (simp add: copy_defs readCopySource_def s3Service_def copyWorld_def Let_def)
  show "replace ''a/'' ''a/'' ''$$$$/'' = ''$$/''"
    by (simp add: replace_def startsWith_def)
  show "renameFile 1 s3Service ''a'' ''$$$$'' True [] placeholderWorld
     = Some (Inr (),
         \<lparr>bucket = [\<lparr>Key = ''$$/x.txt'', LastModified = 5, Size = 4\<rparr>,
                    \<lparr>Key = ''$/'', LastModified = 3, Size = 0\<rparr>,
                    \<lparr>Key = ''$/x.txt'', LastModified = 4, Size = 4\<rparr>],
          clock = 7,
          sent = [ListObjectsV2Command
                    \<lparr>Prefix = ''$$$$/'', Delimiter = None, ContinuationToken = None,
                     MaxKeys = Some 1\<rparr>,
                  ListObjectsV2Command
                    \<lparr>Prefix = ''a/'', Delimiter = None, ContinuationToken = None, MaxKeys = None\<rparr>,
                  ListObjectsV2Command
                    \<lparr>Prefix = ''a/'', Delimiter = None, ContinuationToken = None, MaxKeys = None\<rparr>,
                  CopyObjectCommand ''a/'' ''$/'',
                  CopyObjectCommand ''a/x.txt'' ''$/x.txt'',
                  CopyObjectCommand ''a/x.txt'' ''$$/x.txt'',
                  ListObjectsV2Command
                    \<lparr>Prefix = ''a/'', Delimiter = None, ContinuationToken = None, MaxKeys = None\<rparr>,
                  DeleteObjectsCommand [''a/'', ''a/x.txt'']]\<rparr>)"
    by (simp add: renameFile_def valid_dollars checkIfFileExists_def copy_defs readCopySource_def
        del_step send_delete_def delete_objects_def s3Service_def placeholderWorld_def Let_def)
qed

end
